theory Spec2Isabelle
  imports Main
begin

section \<open>The call coalescer (utils/throttle)\<close>

text \<open>
  The closure returned by \<^verbatim>\<open>throttle(callback, delay, afterRAF)\<close> captures two
  variables, \<^verbatim>\<open>leadCall\<close> and \<^verbatim>\<open>edgeCall\<close>, each either \<^verbatim>\<open>null\<close> or a
  call record \<^verbatim>\<open>[this, args]\<close> (an array, hence always truthy).  The record below
  holds them together with the entries the closure has handed to the environment's
  scheduler: the due times of its pending \<^verbatim>\<open>setTimeout(timeoutCallback, delay)\<close>
  timers, oldest first, and the number of its pending
  \<^verbatim>\<open>requestAnimFrame(invokeCallback)\<close> requests.
\<close>

record 'a throttle =
  leadCall :: "'a option"
  edgeCall :: "'a option"
  timers :: "nat list"
  frames :: nat

definition idle :: "'a throttle" where
  "idle = \<lparr>leadCall = None, edgeCall = None, timers = [], frames = 0\<rparr>"

text \<open>
  \<^verbatim>\<open>TypeError\<close> is what \<^verbatim>\<open>callback.apply(...leadCall)\<close> throws when
  \<^verbatim>\<open>leadCall\<close> is \<^verbatim>\<open>null\<close>; \<^verbatim>\<open>NotEnabled\<close> marks an event the environment
  cannot deliver in the given state (a timer that is not due, a listener that is not
  registered).
\<close>

datatype error = TypeError | NotEnabled

text \<open>
  \<^verbatim>\<open>proxy(...args)\<close>, with \<open>callData\<close> the record \<^verbatim>\<open>[this, args]\<close>.  The timer
  is entered with its nominal due time; whether the environment waits that long is
  said in \<open>timerFires\<close> below.
\<close>

definition proxy :: "nat \<Rightarrow> nat \<Rightarrow> 'a \<Rightarrow> 'a throttle \<Rightarrow> 'a throttle" where
  "proxy delay now callData t =
     (if leadCall t \<noteq> None then t\<lparr>edgeCall := Some callData\<rparr>
      else t\<lparr>leadCall := Some callData, timers := timers t @ [now + delay]\<rparr>)"

text \<open>
  \<^verbatim>\<open>invokeCallback()\<close>.  The closure lives inside a larger state \<open>'g\<close>, reached
  through \<open>get\<close> and \<open>upd\<close>; the wrapped callback is a transformer of that larger
  state, so that it can call the proxy again while it runs.
\<close>

definition invokeCallback ::
  "('g \<Rightarrow> 'a throttle) \<Rightarrow> (('a throttle \<Rightarrow> 'a throttle) \<Rightarrow> 'g \<Rightarrow> 'g) \<Rightarrow>
   ('a \<Rightarrow> 'g \<Rightarrow> 'g) \<Rightarrow> nat \<Rightarrow> nat \<Rightarrow> 'g \<Rightarrow> error + 'g" where
  "invokeCallback get upd callback delay now g =
     (case leadCall (get g) of
        None \<Rightarrow> Inl TypeError
      | Some callData \<Rightarrow>
          let g1 = callback callData g;
              g2 = upd (\<lambda>t. t\<lparr>leadCall := None\<rparr>) g1
          in (case edgeCall (get g2) of
                None \<Rightarrow> Inr g2
              | Some e \<Rightarrow> Inr (upd (\<lambda>t. (proxy delay now e t)\<lparr>edgeCall := None\<rparr>) g2)))"

text \<open>\<^verbatim>\<open>timeoutCallback()\<close>.\<close>

definition timeoutCallback ::
  "('g \<Rightarrow> 'a throttle) \<Rightarrow> (('a throttle \<Rightarrow> 'a throttle) \<Rightarrow> 'g \<Rightarrow> 'g) \<Rightarrow>
   ('a \<Rightarrow> 'g \<Rightarrow> 'g) \<Rightarrow> nat \<Rightarrow> bool \<Rightarrow> nat \<Rightarrow> 'g \<Rightarrow> error + 'g" where
  "timeoutCallback get upd callback delay afterRAF now g =
     (if afterRAF then Inr (upd (\<lambda>t. t\<lparr>frames := frames t + 1\<rparr>) g)
      else invokeCallback get upd callback delay now g)"

text \<open>
  The environment's side.  \<^verbatim>\<open>setTimeout\<close> takes its delay as a signed 32-bit
  number of milliseconds: a delay below \<open>2\<^sup>3\<^sup>1\<close> is waited for, so that the timer
  runs no earlier than its due time; a larger delay overflows, and the timer may run
  at once.  An animation frame runs one pending request.
\<close>

definition waits :: "nat \<Rightarrow> bool" where
  "waits delay \<longleftrightarrow> delay < 2147483648"

definition timerFires ::
  "('g \<Rightarrow> 'a throttle) \<Rightarrow> (('a throttle \<Rightarrow> 'a throttle) \<Rightarrow> 'g \<Rightarrow> 'g) \<Rightarrow>
   ('a \<Rightarrow> 'g \<Rightarrow> 'g) \<Rightarrow> nat \<Rightarrow> bool \<Rightarrow> nat \<Rightarrow> 'g \<Rightarrow> error + 'g" where
  "timerFires get upd callback delay afterRAF now g =
     (case timers (get g) of
        [] \<Rightarrow> Inl NotEnabled
      | due # rest \<Rightarrow>
          if waits delay \<and> now < due then Inl NotEnabled
          else timeoutCallback get upd callback delay afterRAF now
                 (upd (\<lambda>t. t\<lparr>timers := rest\<rparr>) g))"

definition frameFires ::
  "('g \<Rightarrow> 'a throttle) \<Rightarrow> (('a throttle \<Rightarrow> 'a throttle) \<Rightarrow> 'g \<Rightarrow> 'g) \<Rightarrow>
   ('a \<Rightarrow> 'g \<Rightarrow> 'g) \<Rightarrow> nat \<Rightarrow> nat \<Rightarrow> 'g \<Rightarrow> error + 'g" where
  "frameFires get upd callback delay now g =
     (if frames (get g) = 0 then Inl NotEnabled
      else invokeCallback get upd callback delay now
             (upd (\<lambda>t. t\<lparr>frames := frames t - 1\<rparr>) g))"

subsection \<open>One coalescer under an arbitrary client and scheduler\<close>

text \<open>
  A coalescer with its clock (milliseconds) and two logs, newest entry first: the
  proxy calls its clients issued and the invocations of the wrapped callback, each
  with the time it happened.  The wrapped callback is opaque; all it can do to the
  coalescer is call the proxy again while it runs, with the call records \<open>rs\<close>.
\<close>

record 'a coalescer =
  thr :: "'a throttle"
  clock :: nat
  issued :: "(nat \<times> 'a) list"
  fired :: "(nat \<times> 'a) list"

datatype 'a event =
    Call 'a
  | Advance nat
  | Timeout "'a list"
  | Frame "'a list"

definition start :: "'a coalescer" where
  "start = \<lparr>thr = idle, clock = 0, issued = [], fired = []\<rparr>"

definition issue :: "nat \<Rightarrow> 'a \<Rightarrow> 'a coalescer \<Rightarrow> 'a coalescer" where
  "issue delay c s =
     s\<lparr>issued := (clock s, c) # issued s, thr := proxy delay (clock s) c (thr s)\<rparr>"

definition client :: "nat \<Rightarrow> 'a list \<Rightarrow> 'a \<Rightarrow> 'a coalescer \<Rightarrow> 'a coalescer" where
  "client delay rs c s = fold (issue delay) rs (s\<lparr>fired := (clock s, c) # fired s\<rparr>)"

fun step :: "nat \<Rightarrow> bool \<Rightarrow> 'a event \<Rightarrow> 'a coalescer \<Rightarrow> error + 'a coalescer" where
  "step delay afterRAF (Call c) s = Inr (issue delay c s)"
| "step delay afterRAF (Advance d) s = Inr (s\<lparr>clock := clock s + d\<rparr>)"
| "step delay afterRAF (Timeout rs) s =
     timerFires thr thr_update (client delay rs) delay afterRAF (clock s) s"
| "step delay afterRAF (Frame rs) s =
     frameFires thr thr_update (client delay rs) delay (clock s) s"

fun run :: "nat \<Rightarrow> bool \<Rightarrow> 'a event list \<Rightarrow> 'a coalescer \<Rightarrow> error + 'a coalescer" where
  "run delay afterRAF [] s = Inr s"
| "run delay afterRAF (e # es) s =
     (case step delay afterRAF e s of
        Inl err \<Rightarrow> Inl err
      | Inr s' \<Rightarrow> run delay afterRAF es s')"


definition nextTask :: "'a coalescer \<Rightarrow> 'a event option" where
  "nextTask s =
     (if frames (thr s) \<noteq> 0 then Some (Frame [])
      else case timers (thr s) of
             [] \<Rightarrow> None
           | due # _ \<Rightarrow> if clock s < due then Some (Advance (due - clock s))
                        else Some (Timeout []))"


text \<open>
  Measurements on the logs.  \<open>spaced d ts\<close>: in the list \<open>ts\<close> of times, newest
  first, each entry is at least \<open>d\<close> later than the one before it.  \<open>close d ts\<close>:
  each entry is less than \<open>d\<close> later than the one before it.  \<open>span ts\<close>: from the
  oldest entry to the newest.
\<close>

fun spaced :: "nat \<Rightarrow> nat list \<Rightarrow> bool" where
  "spaced d (t2 # t1 # ts) \<longleftrightarrow> t1 + d \<le> t2 \<and> spaced d (t1 # ts)"
| "spaced d ts \<longleftrightarrow> True"

fun close :: "nat \<Rightarrow> nat list \<Rightarrow> bool" where
  "close d (t2 # t1 # ts) \<longleftrightarrow> t1 \<le> t2 \<and> t2 < t1 + d \<and> close d (t1 # ts)"
| "close d ts \<longleftrightarrow> True"

definition span :: "nat list \<Rightarrow> nat" where
  "span ts = (if ts = [] then 0 else hd ts - last ts)"

definition ceil_div :: "nat \<Rightarrow> nat \<Rightarrow> nat" where
  "ceil_div a b = (a + b - 1) div b"

definition fire_times :: "nat \<Rightarrow> bool \<Rightarrow> 'a event list \<Rightarrow> nat list" where
  "fire_times delay afterRAF es =
     (case run delay afterRAF es start of Inl err \<Rightarrow> [] | Inr s \<Rightarrow> map fst (fired s))"

definition call_times :: "nat \<Rightarrow> bool \<Rightarrow> 'a event list \<Rightarrow> nat list" where
  "call_times delay afterRAF es =
     (case run delay afterRAF es start of Inl err \<Rightarrow> [] | Inr s \<Rightarrow> map fst (issued s))"

subsection \<open>Invariants of the coalescer\<close>

text \<open>
  \<open>after_fire\<close> is \<^verbatim>\<open>invokeCallback()\<close> in closed form, for a callback that calls
  the proxy with \<open>rs\<close>.  \<open>shape\<close>: a call is pending exactly when one timer or one
  animation frame is.  \<open>ready_from s t\<close>: nothing pending can run before time \<open>t\<close>.
  \<open>apart\<close>, \<open>within\<close> and \<open>latest\<close> relate the two logs to the two slots;
  \<open>todo\<close> bounds the scheduler steps left once the clients are silent.
\<close>

definition after_fire :: "nat \<Rightarrow> 'a list \<Rightarrow> 'a \<Rightarrow> 'a coalescer \<Rightarrow> 'a coalescer" where
  "after_fire d rs l s =
     s\<lparr>fired := (clock s, l) # fired s,
       issued := map (Pair (clock s)) (rev rs) @ issued s,
       thr := (case (if rs = [] then edgeCall (thr s) else Some (last rs)) of
                 None \<Rightarrow> (thr s)\<lparr>leadCall := None\<rparr>
               | Some e \<Rightarrow> (thr s)\<lparr>leadCall := Some e, edgeCall := None,
                                   timers := timers (thr s) @ [clock s + d]\<rparr>)\<rparr>"

definition pending_ok :: "bool \<Rightarrow> 'a throttle \<Rightarrow> bool" where
  "pending_ok afterRAF t \<longleftrightarrow>
     (if leadCall t = None
      then edgeCall t = None \<and> timers t = [] \<and> frames t = 0
      else length (timers t) + frames t = 1 \<and> (\<not> afterRAF \<longrightarrow> frames t = 0))"

definition shape :: "bool \<Rightarrow> 'a coalescer \<Rightarrow> bool" where
  "shape afterRAF s \<longleftrightarrow> pending_ok afterRAF (thr s)"

definition ready_from :: "'a coalescer \<Rightarrow> nat \<Rightarrow> bool" where
  "ready_from s t \<longleftrightarrow>
     (\<forall>due \<in> set (timers (thr s)). t \<le> due) \<and> (frames (thr s) \<noteq> 0 \<longrightarrow> t \<le> clock s)"

definition apart :: "nat \<Rightarrow> 'a coalescer \<Rightarrow> bool" where
  "apart d s \<longleftrightarrow>
     spaced d (map fst (fired s)) \<and>
     (fired s \<noteq> [] \<longrightarrow> fst (hd (fired s)) \<le> clock s \<and> ready_from s (fst (hd (fired s)) + d))"

definition pend :: "'a coalescer \<Rightarrow> nat" where
  "pend s = (if leadCall (thr s) = None then 0 else 1) + (if edgeCall (thr s) = None then 0 else 1)"

definition within :: "nat \<Rightarrow> 'a coalescer \<Rightarrow> bool" where
  "within d s \<longleftrightarrow>
     (if issued s = [] then fired s = [] \<and> leadCall (thr s) = None
      else fst (last (issued s)) \<le> fst (hd (issued s)) \<and>
           fst (hd (issued s)) \<le> clock s \<and>
           length (fired s) + pend s \<le> (fst (hd (issued s)) - fst (last (issued s))) div d + 2 \<and>
           fst (last (issued s)) + length (fired s) * d \<le> clock s \<and>
           ready_from s (fst (last (issued s)) + (length (fired s) + 1) * d))"

definition latest :: "'a coalescer \<Rightarrow> bool" where
  "latest s \<longleftrightarrow>
     (if issued s = [] then fired s = [] \<and> leadCall (thr s) = None
      else case edgeCall (thr s) of
             Some e \<Rightarrow> e = snd (hd (issued s))
           | None \<Rightarrow>
               (case leadCall (thr s) of
                  Some l \<Rightarrow> l = snd (hd (issued s))
                | None \<Rightarrow> fired s \<noteq> [] \<and> snd (hd (fired s)) = snd (hd (issued s))))"


definition sound :: "bool \<Rightarrow> nat \<Rightarrow> 'a coalescer \<Rightarrow> bool" where
  "sound afterRAF d s \<longleftrightarrow>
     shape afterRAF s \<and> latest s \<and>
     (waits d \<longrightarrow> apart d s \<and> (0 < d \<longrightarrow> within d s))"

section \<open>The update controller (ResizeObserverController)\<close>

text \<open>
  An observer is held by reference; \<open>sid\<close> is the reference.  The observers' own
  state, and whatever of the page they measure, is the world \<open>'w\<close>.  The three
  methods the controller calls on an observer are supplied by the environment, with
  the two module constants \<^verbatim>\<open>isBrowser\<close> and \<^verbatim>\<open>mutationsSupported\<close>.  In
  this record the methods act on the world only; what a subscriber may do to the
  controller from inside \<^verbatim>\<open>broadcastActive()\<close> is the subject of \<open>updateLive\<close>
  below.
\<close>

type_synonym sid = nat

record 'w env =
  isBrowser :: bool
  mutationsSupported :: bool
  gatherActive :: "sid \<Rightarrow> 'w \<Rightarrow> 'w"
  hasActive :: "sid \<Rightarrow> 'w \<Rightarrow> bool"
  broadcastActive :: "sid \<Rightarrow> 'w \<Rightarrow> 'w"

text \<open>The arguments a call of \<^verbatim>\<open>refresh\<close> carries; the method ignores them.\<close>

datatype refresh_args = NoArgs | ResizeEvent | MutationRecords

text \<open>The field \<^verbatim>\<open>_mutationsObserver\<close>: not yet assigned, \<^verbatim>\<open>null\<close>, or an observer
  watching the document.\<close>

datatype handle = Undefined | Null | Watcher

text \<open>What the controller does to its surroundings, in the order it does it.\<close>

datatype effect =
    AddResizeListener
  | RemoveResizeListener
  | ObserveMutations
  | DisconnectMutations
  | RefreshPass
  | GatherActive sid
  | HasActive sid bool
  | BroadcastActive sid

record 'w controller =
  isCycleContinuous :: bool
  listenersEnabled :: bool
  mutationsObserver :: handle
  observers :: "sid list"
  refreshT :: "refresh_args throttle"
  continuousT :: "refresh_args throttle"
  now :: nat
  resizeListener :: bool
  world :: 'w
  trace :: "effect list"

text \<open>\<^verbatim>\<open>new ResizeObserverController(continuousUpdates)\<close>, in world \<open>w\<close>.\<close>

definition constructor :: "'w env \<Rightarrow> bool \<Rightarrow> 'w \<Rightarrow> 'w controller" where
  "constructor E continuousUpdates w =
     \<lparr>isCycleContinuous = (\<not> mutationsSupported E \<or> continuousUpdates),
      listenersEnabled = False,
      mutationsObserver = Undefined,
      observers = [],
      refreshT = idle,
      continuousT = idle,
      now = 0,
      resizeListener = False,
      world = w,
      trace = []\<rparr>"

text \<open>\<^verbatim>\<open>this.refresh(...)\<close> after the constructor: the proxy of
  \<^verbatim>\<open>throttle(refresh, 30, true)\<close>.\<close>

definition refresh :: "refresh_args \<Rightarrow> 'w controller \<Rightarrow> 'w controller" where
  "refresh args s = s\<lparr>refreshT := proxy 30 (now s) args (refreshT s)\<rparr>"

text \<open>\<^verbatim>\<open>this._continuousUpdateHandler(...)\<close>: the proxy of
  \<^verbatim>\<open>throttle(this.refresh, 70)\<close>.\<close>

definition continuousUpdateHandler :: "refresh_args \<Rightarrow> 'w controller \<Rightarrow> 'w controller" where
  "continuousUpdateHandler args s = s\<lparr>continuousT := proxy 70 (now s) args (continuousT s)\<rparr>"

definition continuousUpdates :: "'w controller \<Rightarrow> bool" where
  "continuousUpdates s = isCycleContinuous s"

definition set_continuousUpdates :: "'w env \<Rightarrow> bool \<Rightarrow> 'w controller \<Rightarrow> 'w controller" where
  "set_continuousUpdates E useContinuous s =
     (if \<not> mutationsSupported E then s
      else let s1 = s\<lparr>isCycleContinuous := useContinuous\<rparr>
           in if listenersEnabled s1 \<and> useContinuous then refresh NoArgs s1 else s1)"

definition isConnected :: "sid \<Rightarrow> 'w controller \<Rightarrow> bool" where
  "isConnected observer s \<longleftrightarrow> observer \<in> set (observers s)"

definition addListeners :: "'w env \<Rightarrow> 'w controller \<Rightarrow> 'w controller" where
  "addListeners E s =
     (if \<not> isBrowser E \<or> listenersEnabled s then s
      else let s1 = s\<lparr>resizeListener := True, trace := trace s @ [AddResizeListener]\<rparr>;
               s2 = (if mutationsSupported E
                     then s1\<lparr>mutationsObserver := Watcher,
                             trace := trace s1 @ [ObserveMutations]\<rparr>
                     else s1);
               s3 = s2\<lparr>listenersEnabled := True\<rparr>
           in if isCycleContinuous s3 then refresh NoArgs s3 else s3)"

definition removeListeners :: "'w env \<Rightarrow> 'w controller \<Rightarrow> 'w controller" where
  "removeListeners E s =
     (if \<not> isBrowser E \<or> \<not> listenersEnabled s then s
      else let s1 = s\<lparr>resizeListener := False, trace := trace s @ [RemoveResizeListener]\<rparr>;
               s2 = (if mutationsObserver s1 = Watcher
                     then s1\<lparr>trace := trace s1 @ [DisconnectMutations]\<rparr>
                     else s1)
           in s2\<lparr>mutationsObserver := Null, listenersEnabled := False\<rparr>)"

definition connect :: "'w env \<Rightarrow> sid \<Rightarrow> 'w controller \<Rightarrow> 'w controller" where
  "connect E observer s =
     (let s1 = (if \<not> isConnected observer s
                then s\<lparr>observers := observers s @ [observer]\<rparr> else s)
      in if \<not> listenersEnabled s1 then addListeners E s1 else s1)"

definition disconnect :: "'w env \<Rightarrow> sid \<Rightarrow> 'w controller \<Rightarrow> 'w controller" where
  "disconnect E observer s =
     (let s1 = (if observer \<in> set (observers s)
                then s\<lparr>observers := remove1 observer (observers s)\<rparr> else s)
      in if observers s1 = [] \<and> listenersEnabled s1 then removeListeners E s1 else s1)"

text \<open>
  The loop of \<^verbatim>\<open>_updateObservers()\<close> over the observers still to visit, carrying
  \<^verbatim>\<open>hasChanges\<close>, the world and the trace.
\<close>

fun updateLoop ::
  "'w env \<Rightarrow> sid list \<Rightarrow> bool \<times> 'w \<times> effect list \<Rightarrow> bool \<times> 'w \<times> effect list" where
  "updateLoop E [] acc = acc"
| "updateLoop E (observer # rest) (hasChanges, w, tr) =
     (let w1 = gatherActive E observer w
      in if hasActive E observer w1
         then updateLoop E rest
                (True, broadcastActive E observer w1,
                 tr @ [GatherActive observer, HasActive observer True,
                       BroadcastActive observer])
         else updateLoop E rest
                (hasChanges, w1, tr @ [GatherActive observer, HasActive observer False]))"

definition updateObservers :: "'w env \<Rightarrow> 'w controller \<Rightarrow> bool \<times> 'w controller" where
  "updateObservers E s =
     (case updateLoop E (observers s) (False, world s, trace s) of
        (hasChanges, w, tr) \<Rightarrow> (hasChanges, s\<lparr>world := w, trace := tr\<rparr>))"

text \<open>The method \<^verbatim>\<open>refresh()\<close> of the prototype, the callback the constructor wraps.\<close>

definition refreshBody :: "'w env \<Rightarrow> 'w controller \<Rightarrow> 'w controller" where
  "refreshBody E s =
     (case updateObservers E (s\<lparr>trace := trace s @ [RefreshPass]\<rparr>) of
        (hasChanges, s1) \<Rightarrow>
          if hasChanges then refresh NoArgs s1
          else if isCycleContinuous s1 \<and> listenersEnabled s1
               then continuousUpdateHandler NoArgs s1
               else s1)"

text \<open>
  What can happen to a controller: calls of its public operations, the two
  notifications it subscribes to (delivered only while it is subscribed), the passing
  of time, and the scheduler running one of its timers or animation frames.
\<close>

datatype cevent =
    Connect sid
  | Disconnect sid
  | SetContinuous bool
  | CallRefresh
  | Resize
  | Mutation
  | Tick nat
  | RefreshTimeout
  | ContinuousTimeout
  | AnimationFrame

fun cstep :: "'w env \<Rightarrow> cevent \<Rightarrow> 'w controller \<Rightarrow> error + 'w controller" where
  "cstep E (Connect observer) s = Inr (connect E observer s)"
| "cstep E (Disconnect observer) s = Inr (disconnect E observer s)"
| "cstep E (SetContinuous v) s = Inr (set_continuousUpdates E v s)"
| "cstep E CallRefresh s = Inr (refresh NoArgs s)"
| "cstep E Resize s =
     (if resizeListener s then Inr (refresh ResizeEvent s) else Inl NotEnabled)"
| "cstep E Mutation s =
     (if mutationsObserver s = Watcher then Inr (refresh MutationRecords s)
      else Inl NotEnabled)"
| "cstep E (Tick d) s = Inr (s\<lparr>now := now s + d\<rparr>)"
| "cstep E RefreshTimeout s =
     timerFires refreshT refreshT_update (\<lambda>callData. refreshBody E) 30 True (now s) s"
| "cstep E ContinuousTimeout s =
     timerFires continuousT continuousT_update refresh 70 False (now s) s"
| "cstep E AnimationFrame s =
     frameFires refreshT refreshT_update (\<lambda>callData. refreshBody E) 30 (now s) s"

fun crun :: "'w env \<Rightarrow> cevent list \<Rightarrow> 'w controller \<Rightarrow> error + 'w controller" where
  "crun E [] s = Inr s"
| "crun E (e # es) s =
     (case cstep E e s of
        Inl err \<Rightarrow> Inl err
      | Inr s' \<Rightarrow> crun E es s')"

subsection \<open>The loop over the live array\<close>

text \<open>
  \<^verbatim>\<open>for (const observer of this._observers)\<close> walks the array itself, not a copy:
  each round reads the length and the element at the iterator's index anew.
  \<^verbatim>\<open>broadcastActive()\<close> runs the subscriber's callback, and the subscriber may
  connect or disconnect sessions from there; \<open>calls observer w\<close> lists the calls it
  makes.  \<open>updateLive\<close> is \<^verbatim>\<open>_updateObservers()\<close> with that array and those calls,
  from index \<open>i\<close>, for at most \<open>n\<close> rounds (a subscriber that keeps connecting
  sessions keeps the loop running): \<open>None\<close> when the rounds run out.  \<open>updateLoop\<close>
  above is the same loop when no subscriber calls the controller.
\<close>

datatype call = CallConnect sid | CallDisconnect sid

fun perform :: "'w env \<Rightarrow> call \<Rightarrow> 'w controller \<Rightarrow> 'w controller" where
  "perform E (CallConnect observer) s = connect E observer s"
| "perform E (CallDisconnect observer) s = disconnect E observer s"

fun updateLive ::
  "'w env \<Rightarrow> (sid \<Rightarrow> 'w \<Rightarrow> call list) \<Rightarrow> nat \<Rightarrow> nat \<Rightarrow> bool \<Rightarrow> 'w controller \<Rightarrow>
   (bool \<times> 'w controller) option" where
  "updateLive E calls 0 i hasChanges s =
     (if i < length (observers s) then None else Some (hasChanges, s))"
| "updateLive E calls (Suc n) i hasChanges s =
     (if i < length (observers s)
      then let observer = observers s ! i;
               w1 = gatherActive E observer (world s);
               s1 = s\<lparr>world := w1, trace := trace s @ [GatherActive observer]\<rparr>
           in if hasActive E observer w1
              then let s2 = s1\<lparr>world := broadcastActive E observer w1,
                                trace := trace s1 @ [HasActive observer True,
                                                     BroadcastActive observer]\<rparr>;
                       s3 = fold (perform E) (calls observer w1) s2
                   in updateLive E calls n (Suc i) True s3
              else updateLive E calls n (Suc i) hasChanges
                     (s1\<lparr>trace := trace s1 @ [HasActive observer False]\<rparr>)
      else Some (hasChanges, s))"

subsection \<open>One refresh pass, as the specification words it\<close>

text \<open>
  For one session: \<^verbatim>\<open>gatherActive()\<close> is called, then \<^verbatim>\<open>hasActive()\<close> is
  queried, and \<^verbatim>\<open>broadcastActive()\<close> is called exactly when the answer was true.
  A pass is the sessions' blocks one after the other, in the order of the list; it
  reports changes iff some session's \<^verbatim>\<open>hasActive()\<close> answered true.
\<close>

definition session_report :: "'w env \<Rightarrow> sid \<Rightarrow> 'w \<Rightarrow> bool" where
  "session_report E observer w = hasActive E observer (gatherActive E observer w)"

definition session_block :: "'w env \<Rightarrow> sid \<Rightarrow> 'w \<Rightarrow> effect list" where
  "session_block E observer w =
     [GatherActive observer, HasActive observer (session_report E observer w)] @
     (if session_report E observer w then [BroadcastActive observer] else [])"

definition session_world :: "'w env \<Rightarrow> sid \<Rightarrow> 'w \<Rightarrow> 'w" where
  "session_world E observer w =
     (if session_report E observer w
      then broadcastActive E observer (gatherActive E observer w)
      else gatherActive E observer w)"

fun pass_trace :: "'w env \<Rightarrow> sid list \<Rightarrow> 'w \<Rightarrow> effect list" where
  "pass_trace E [] w = []"
| "pass_trace E (observer # rest) w =
     session_block E observer w @ pass_trace E rest (session_world E observer w)"

fun pass_world :: "'w env \<Rightarrow> sid list \<Rightarrow> 'w \<Rightarrow> 'w" where
  "pass_world E [] w = w"
| "pass_world E (observer # rest) w = pass_world E rest (session_world E observer w)"

fun pass_reports :: "'w env \<Rightarrow> sid list \<Rightarrow> 'w \<Rightarrow> bool" where
  "pass_reports E [] w \<longleftrightarrow> False"
| "pass_reports E (observer # rest) w \<longleftrightarrow>
     session_report E observer w \<or> pass_reports E rest (session_world E observer w)"


text \<open>
  The sessions connected after a history of events, in the order they were connected,
  starting from the sessions \<open>os\<close>.
\<close>

fun connection_order :: "cevent list \<Rightarrow> sid list \<Rightarrow> sid list" where
  "connection_order [] os = os"
| "connection_order (Connect observer # es) os =
     connection_order es (if observer \<in> set os then os else os @ [observer])"
| "connection_order (Disconnect observer # es) os =
     connection_order es (removeAll observer os)"
| "connection_order (e # es) os = connection_order es os"

subsection \<open>The controller left to the scheduler\<close>


definition timerTask :: "nat \<Rightarrow> nat \<Rightarrow> cevent \<Rightarrow> cevent" where
  "timerTask t due e = (if t < due then Tick (due - t) else e)"

definition cnextTask :: "'w controller \<Rightarrow> cevent option" where
  "cnextTask s =
     (if frames (refreshT s) \<noteq> 0 then Some AnimationFrame
      else case (timers (refreshT s), timers (continuousT s)) of
             ([], []) \<Rightarrow> None
           | (r # _, []) \<Rightarrow> Some (timerTask (now s) r RefreshTimeout)
           | ([], c # _) \<Rightarrow> Some (timerTask (now s) c ContinuousTimeout)
           | (r # _, c # _) \<Rightarrow>
               if r \<le> c then Some (timerTask (now s) r RefreshTimeout)
               else Some (timerTask (now s) c ContinuousTimeout))"

fun cwind_down :: "'w env \<Rightarrow> nat \<Rightarrow> 'w controller \<Rightarrow> cevent list" where
  "cwind_down E 0 s = []"
| "cwind_down E (Suc n) s =
     (case cnextTask s of
        None \<Rightarrow> []
      | Some e \<Rightarrow>
          (case cstep E e s of
             Inl err \<Rightarrow> []
           | Inr s' \<Rightarrow> e # cwind_down E n s'))"


definition listener_effects :: "effect list \<Rightarrow> effect list" where
  "listener_effects xs =
     filter (\<lambda>x. x \<in> {AddResizeListener, RemoveResizeListener,
                        ObserveMutations, DisconnectMutations}) xs"



text \<open>
  What holds of a controller in every reachable state.  \<open>armed\<close>: one refresh is
  scheduled and nothing else, and idle polling is off; \<open>calm\<close>: nothing is scheduled
  and both slots of the refresh coalescer are empty.
\<close>

definition cpart :: "'w env \<Rightarrow> 'w controller \<Rightarrow> bool" where
  "cpart E s \<longleftrightarrow>
     (listenersEnabled s \<longleftrightarrow> isBrowser E \<and> observers s \<noteq> []) \<and>
     (resizeListener s \<longleftrightarrow> listenersEnabled s) \<and>
     (mutationsObserver s = Watcher \<longleftrightarrow> listenersEnabled s \<and> mutationsSupported E) \<and>
     distinct (observers s) \<and>
     (\<not> mutationsSupported E \<longrightarrow> isCycleContinuous s)"

definition cinv :: "'w env \<Rightarrow> 'w controller \<Rightarrow> bool" where
  "cinv E s \<longleftrightarrow>
     cpart E s \<and> pending_ok True (refreshT s) \<and> pending_ok False (continuousT s)"


definition calm :: "'w controller \<Rightarrow> bool" where
  "calm s \<longleftrightarrow>
     leadCall (refreshT s) = None \<and> edgeCall (refreshT s) = None \<and>
     timers (refreshT s) = [] \<and> frames (refreshT s) = 0 \<and>
     timers (continuousT s) = []"

text \<open>
  \<open>cpend\<close> counts the calls waiting in the four slots of the two coalescers;
  \<open>ctodo\<close> bounds the scheduler steps still to come when no session is connected
  (a timer of the refresh coalescer costs a wait, the timer and the frame; a timer of
  the continuous coalescer a wait, the timer and the refresh it asks for).
\<close>

definition cpend :: "'w controller \<Rightarrow> nat" where
  "cpend s =
     (if leadCall (refreshT s) = None then 0 else 1) +
     (if edgeCall (refreshT s) = None then 0 else 1) +
     (if leadCall (continuousT s) = None then 0 else 1) +
     (if edgeCall (continuousT s) = None then 0 else 1)"

definition ctodo :: "'w controller \<Rightarrow> nat" where
  "ctodo s =
     (if frames (refreshT s) \<noteq> 0 then 1
      else case timers (refreshT s) of
             [] \<Rightarrow> 0
           | due # _ \<Rightarrow> (if now s < due then 1 else 0) + 2) +
     (if edgeCall (refreshT s) = None then 0 else 3) +
     (case timers (continuousT s) of
        [] \<Rightarrow> 0
      | due # _ \<Rightarrow> (if now s < due then 1 else 0) + 4) +
     (if edgeCall (continuousT s) = None then 0 else 5)"

text \<open>
  A small environment to run the controller in: the world is the number of passes that
  will still find a change; every session sees a change while that number is positive,
  and delivering a change uses one up.
\<close>

definition demo_env :: "bool \<Rightarrow> bool \<Rightarrow> nat env" where
  "demo_env browser mutations =
     \<lparr>isBrowser = browser, mutationsSupported = mutations,
      gatherActive = (\<lambda>observer w. w),
      hasActive = (\<lambda>observer w. 0 < w),
      broadcastActive = (\<lambda>observer w. w - 1)\<rparr>"

text \<open>The sessions a list of effects gathers, in order.\<close>

fun gathered :: "effect list \<Rightarrow> sid list" where
  "gathered [] = []"
| "gathered (GatherActive observer # xs) = observer # gathered xs"
| "gathered (x # xs) = gathered xs"

section \<open>Properties of the coalescer\<close>

lemma waits_constants [simp]: "waits 0" "waits 30" "waits 70"
  by (simp_all add: waits_def)

lemma waits_int [code]: "waits delay \<longleftrightarrow> int delay < 2147483648"
  by (simp add: waits_def)

lemma shape_alt:
  "shape afterRAF s \<longleftrightarrow>
     (if leadCall (thr s) = None
      then edgeCall (thr s) = None \<and> timers (thr s) = [] \<and> frames (thr s) = 0
      else length (timers (thr s)) + frames (thr s) = 1 \<and>
           (\<not> afterRAF \<longrightarrow> frames (thr s) = 0))"
  by (simp add: shape_def pending_ok_def)

lemma fold_issue:
  "leadCall (thr s) \<noteq> None \<Longrightarrow>
   fold (issue d) rs s =
     s\<lparr>issued := map (Pair (clock s)) (rev rs) @ issued s,
       thr := (thr s)\<lparr>edgeCall := (if rs = [] then edgeCall (thr s) else Some (last rs))\<rparr>\<rparr>"
proof (induction rs arbitrary: s)
  case Nil
  then show ?case by simp
next
  case (Cons r rs)
  have "leadCall (thr (issue d r s)) \<noteq> None"
    using Cons.prems by (simp add: issue_def proxy_def)
  from Cons.IH [OF this] show ?case
    using Cons.prems by (simp add: issue_def proxy_def)
qed

lemma invokeCallback_client:
  "leadCall (thr s) = Some l \<Longrightarrow> n = clock s \<Longrightarrow>
   invokeCallback thr thr_update (client d rs) d n s = Inr (after_fire d rs l s)"
  by (simp add: invokeCallback_def client_def fold_issue after_fire_def Let_def proxy_def
           split: option.splits)

lemmas step_defs =
  timerFires_def timeoutCallback_def frameFires_def invokeCallback_client after_fire_def
  issue_def proxy_def

lemma step_elim [consumes 2, case_names call_lead call_edge advance timeout_raf fire]:
  assumes "shape raf s" and "step d raf e s = Inr s'"
  obtains
    (call_lead) c where "e = Call c" "leadCall (thr s) = None"
      "leadCall (thr s') = Some c" "edgeCall (thr s') = None"
      "timers (thr s') = [clock s + d]" "frames (thr s') = 0"
      "clock s' = clock s" "issued s' = (clock s, c) # issued s" "fired s' = fired s"
  | (call_edge) c where "e = Call c" "leadCall (thr s) \<noteq> None"
      "leadCall (thr s') = leadCall (thr s)" "edgeCall (thr s') = Some c"
      "timers (thr s') = timers (thr s)" "frames (thr s') = frames (thr s)"
      "clock s' = clock s" "issued s' = (clock s, c) # issued s" "fired s' = fired s"
  | (advance) n where "e = Advance n"
      "thr s' = thr s" "clock s' = clock s + n" "issued s' = issued s" "fired s' = fired s"
  | (timeout_raf) rs due where "e = Timeout rs" "raf" "leadCall (thr s) \<noteq> None"
      "timers (thr s) = [due]" "waits d \<longrightarrow> due \<le> clock s" "frames (thr s) = 0"
      "leadCall (thr s') = leadCall (thr s)" "edgeCall (thr s') = edgeCall (thr s)"
      "timers (thr s') = []" "frames (thr s') = 1"
      "clock s' = clock s" "issued s' = issued s" "fired s' = fired s"
  | (fire) rs l where
      "e = Timeout rs \<and> \<not> raf \<and> (\<exists>due. timers (thr s) = [due] \<and> (waits d \<longrightarrow> due \<le> clock s)) \<and>
         frames (thr s) = 0 \<or>
       e = Frame rs \<and> raf \<and> timers (thr s) = [] \<and> frames (thr s) = 1"
      "leadCall (thr s) = Some l"
      "leadCall (thr s') = (if rs = [] then edgeCall (thr s) else Some (last rs))"
      "edgeCall (thr s') = None"
      "timers (thr s') = (if leadCall (thr s') = None then [] else [clock s + d])"
      "frames (thr s') = 0"
      "clock s' = clock s" "issued s' = map (Pair (clock s)) (rev rs) @ issued s"
      "fired s' = (clock s, l) # fired s"
proof (cases e)
  case (Call c)
  with assms show ?thesis
    by (cases "leadCall (thr s)")
       (auto simp: shape_alt issue_def proxy_def intro: call_lead call_edge)
next
  case (Advance n)
  with assms show ?thesis by (auto intro: advance)
next
  case (Timeout rs)
  show ?thesis
  proof (cases "leadCall (thr s)")
    case None
    with assms Timeout show ?thesis by (simp add: shape_alt timerFires_def)
  next
    case (Some l)
    show ?thesis
    proof (cases raf)
      case True
      with assms Timeout Some show ?thesis
        by (cases "timers (thr s)")
           (auto simp: shape_alt timerFires_def timeoutCallback_def
                 split: if_splits intro: timeout_raf [of rs])
    next
      case False
      show ?thesis
        by (rule fire [of rs l]; use assms Timeout Some False in
              \<open>cases "timers (thr s)";
               auto simp: shape_alt step_defs split: if_splits option.splits\<close>)
    qed
  qed
next
  case (Frame rs)
  show ?thesis
  proof (cases "leadCall (thr s)")
    case None
    with assms Frame show ?thesis by (simp add: shape_alt frameFires_def)
  next
    case (Some l)
    have "frames (thr s) \<noteq> 0"
      using assms Frame by (auto simp: frameFires_def split: if_splits)
    with assms(1) Some have pending: "timers (thr s) = []" "frames (thr s) = 1" "raf"
      by (cases "timers (thr s)"; auto simp: shape_alt)+
    show ?thesis
      by (rule fire [of rs l]; use assms Frame Some pending in
            \<open>auto simp: step_defs split: if_splits option.splits\<close>)
  qed
qed


lemma step_shape:
  assumes "shape raf s" and "step d raf e s = Inr s'"
  shows "shape raf s'"
  using assms
  by (cases rule: step_elim; use assms(1) in \<open>auto simp: shape_alt\<close>)

lemma step_apart:
  assumes "waits d" and "shape raf s" and "apart d s" and "step d raf e s = Inr s'"
  shows "apart d s'"
  using assms(2,4)
  by (cases rule: step_elim; cases "fired s";
      use assms(1,2,3) in \<open>auto simp: apart_def ready_from_def shape_alt\<close>)

lemma step_latest:
  assumes "shape raf s" and "latest s" and "step d raf e s = Inr s'"
  shows "latest s'"
  using assms(1,3)
  by (cases rule: step_elim;
      use assms(1,2) in \<open>auto simp: latest_def shape_alt hd_append hd_map hd_rev
                               split: option.splits if_splits\<close>)

lemma fits: "0 < d \<Longrightarrow> a + k * d \<le> c \<Longrightarrow> k \<le> (c - a) div (d::nat)"
  by (simp add: less_eq_div_iff_mult_less_eq)

lemma step_within:
  assumes "0 < d" and "waits d" and "shape raf s" and "within d s"
    and "step d raf e s = Inr s'"
  shows "within d s'"
proof -
  have room: "issued s \<noteq> [] \<Longrightarrow>
      length (fired s) \<le> (clock s - fst (last (issued s))) div d"
    using assms(1,4) by (auto simp: within_def intro: fits)
  from assms(3,5) show ?thesis
    by (cases rule: step_elim;
        use assms(2,3,4) room in
          \<open>auto simp: within_def pend_def ready_from_def shape_alt hd_append hd_map hd_rev
                split: if_splits\<close>)
qed


lemma sound_start: "sound raf d start"
  by (simp add: sound_def shape_alt apart_def latest_def within_def start_def idle_def)

lemma step_sound:
  "sound raf d s \<Longrightarrow> step d raf e s = Inr s' \<Longrightarrow> sound raf d s'"
  unfolding sound_def
  using step_shape step_apart step_latest step_within by blast

lemma run_sound:
  "sound raf d s \<Longrightarrow> run d raf es s = Inr s' \<Longrightarrow> sound raf d s'"
proof (induction es arbitrary: s)
  case Nil
  then show ?case by simp
next
  case (Cons e es)
  then show ?case
    by (cases "step d raf e s") (auto dest: step_sound)
qed








subsection \<open>Claims about the coalescer\<close>

lemmas run_defs =
  fire_times_def call_times_def start_def idle_def issue_def proxy_def timerFires_def
  timeoutCallback_def frameFires_def invokeCallback_def client_def nextTask_def
  Let_def waits_def span_def ceil_div_def

text \<open>
  C2 (as amended).  For every wrapped callback and every delay \<open>D\<close> below \<open>2\<^sup>3\<^sup>1\<close>
  milliseconds, under every schedule of proxy calls, timers and animation frames: two
  invocations of the callback are never closer together than \<open>D\<close>; and when \<open>D > 0\<close>
  the callback fires at most \<open>\<lfloor>span of the calls / D\<rfloor> + 2\<close> times, the span being
  the time from the first proxy call to the last.
\<close>

theorem coalescer_spacing_and_rate:
  "waits delay \<longrightarrow>
     spaced delay (fire_times delay afterRAF es) \<and>
     (0 < delay \<longrightarrow>
        length (fire_times delay afterRAF es)
          \<le> span (call_times delay afterRAF es) div delay + 2)"
proof (cases "run delay afterRAF es start")
  case (Inl err)
  then show ?thesis by (simp add: fire_times_def call_times_def span_def)
next
  case (Inr s)
  then have snd: "sound afterRAF delay s"
    using run_sound sound_start by blast
  have "spaced delay (map fst (fired s))" if "waits delay"
    using snd that by (simp add: sound_def apart_def)
  moreover have "length (fired s) \<le> span (map fst (issued s)) div delay + 2"
    if "waits delay" "0 < delay"
    using snd that
    by (auto simp: sound_def within_def span_def hd_map last_map split: if_splits)
  ultimately show ?thesis
    using Inr by (simp add: fire_times_def call_times_def)
qed

text \<open>C2, the theorem at a concrete schedule: calls at times 0, 0 and 29 with delay 30.\<close>

theorem coalescer_spacing_and_rate_witness:
  "waits 30 \<and> (0::nat) < 30 \<and>
   fire_times 30 False [Call (1::nat), Call 2, Advance 29, Call 3, Advance 1, Timeout [],
                        Advance 30, Timeout []] = [60, 30] \<and>
   call_times 30 False [Call (1::nat), Call 2, Advance 29, Call 3, Advance 1, Timeout [],
                        Advance 30, Timeout []] = [29, 0, 0] \<and>
   spaced 30 (fire_times 30 False [Call (1::nat), Call 2, Advance 29, Call 3, Advance 1,
                                   Timeout [], Advance 30, Timeout []]) \<and>
   length (fire_times 30 False [Call (1::nat), Call 2, Advance 29, Call 3, Advance 1,
                                Timeout [], Advance 30, Timeout []])
     \<le> span (call_times 30 False [Call (1::nat), Call 2, Advance 29, Call 3, Advance 1,
                                  Timeout [], Advance 30, Timeout []]) div 30 + 2"
proof -
  have pos: "(0::nat) < 30" by simp
  have "fire_times 30 False [Call (1::nat), Call 2, Advance 29, Call 3, Advance 1, Timeout [],
                        Advance 30, Timeout []] = [60, 30]" by (simp add: run_defs)
  moreover have "call_times 30 False [Call (1::nat), Call 2, Advance 29, Call 3, Advance 1, Timeout [],
                        Advance 30, Timeout []] = [29, 0, 0]" by (simp add: run_defs)
  moreover have "waits 30" by (simp add: waits_def)
  ultimately show ?thesis
    using pos coalescer_spacing_and_rate [of 30 False
          "[Call (1::nat), Call 2, Advance 29, Call 3, Advance 1, Timeout [], Advance 30, Timeout []]"]
    by simp
qed

text \<open>
  C2 as stated fails twice.  Two proxy calls at the same instant (each within less than
  \<open>D = 30\<close> of the previous, span 0) make the callback fire twice, at 30 and at 60,
  while \<open>\<lceil>0 / 30\<rceil> + 1 = 1\<close>.  And with \<open>D = 2\<^sup>3\<^sup>1\<close> the delay overflows
  \<^verbatim>\<open>setTimeout\<close>: two calls a millisecond apart fire a millisecond apart.
\<close>

theorem coalescer_rate_counterexample:
  "close 30 (call_times 30 False
      [Call (1::nat), Call 2, Advance 30, Timeout [], Advance 30, Timeout []]) \<and>
   call_times 30 False
      [Call (1::nat), Call 2, Advance 30, Timeout [], Advance 30, Timeout []] = [0, 0] \<and>
   fire_times 30 False
      [Call (1::nat), Call 2, Advance 30, Timeout [], Advance 30, Timeout []] = [60, 30] \<and>
   \<not> length (fire_times 30 False
        [Call (1::nat), Call 2, Advance 30, Timeout [], Advance 30, Timeout []])
     \<le> ceil_div (span (call_times 30 False
          [Call (1::nat), Call 2, Advance 30, Timeout [], Advance 30, Timeout []])) 30 + 1 \<and>
   fire_times 2147483648 False
      [Call (1::nat), Advance 1, Timeout [], Call 2, Advance 1, Timeout []] = [2, 1] \<and>
   \<not> spaced 2147483648 (fire_times 2147483648 False
        [Call (1::nat), Advance 1, Timeout [], Call 2, Advance 1, Timeout []])"
  by (simp add: run_defs)



text \<open>
  C4.  In every reachable state of the coalescer: a proxy call with no call pending
  records the call as \<^verbatim>\<open>leadCall\<close> and schedules the one delay timer; a proxy call
  with a call pending only overwrites \<^verbatim>\<open>edgeCall\<close>, leaving \<^verbatim>\<open>leadCall\<close> and the
  timer as they are; \<^verbatim>\<open>edgeCall\<close> is set only while \<^verbatim>\<open>leadCall\<close> is; and after
  \<^verbatim>\<open>leadCall\<close> fires, the pending \<^verbatim>\<open>edgeCall\<close> (the last call the callback itself
  made, if it made one) is the new \<^verbatim>\<open>leadCall\<close> with a timer due one full delay
  after the firing, and \<^verbatim>\<open>edgeCall\<close> is empty.
\<close>

theorem coalescer_two_slots:
  assumes "run delay afterRAF es start = Inr s"
  shows "(leadCall (thr s) = None \<longrightarrow>
            step delay afterRAF (Call c) s =
              Inr (s\<lparr>issued := (clock s, c) # issued s,
                     thr := \<lparr>leadCall = Some c, edgeCall = None,
                             timers = [clock s + delay], frames = 0\<rparr>\<rparr>)) \<and>
         (leadCall (thr s) \<noteq> None \<longrightarrow>
            step delay afterRAF (Call c) s =
              Inr (s\<lparr>issued := (clock s, c) # issued s,
                     thr := (thr s)\<lparr>edgeCall := Some c\<rparr>\<rparr>)) \<and>
         (edgeCall (thr s) \<noteq> None \<longrightarrow> leadCall (thr s) \<noteq> None) \<and>
         (\<forall>s'. (e = Timeout rs \<and> \<not> afterRAF \<or> e = Frame rs) \<and>
               step delay afterRAF e s = Inr s' \<longrightarrow>
               leadCall (thr s') = (if rs = [] then edgeCall (thr s) else Some (last rs)) \<and>
               edgeCall (thr s') = None \<and>
               timers (thr s') = (if leadCall (thr s') = None then [] else [clock s + delay]) \<and>
               frames (thr s') = 0)"
proof -
  have shp: "shape afterRAF s"
    using assms run_sound sound_start unfolding sound_def by blast
  have "leadCall (thr s) = None \<longrightarrow>
            step delay afterRAF (Call c) s =
              Inr (s\<lparr>issued := (clock s, c) # issued s,
                     thr := \<lparr>leadCall = Some c, edgeCall = None,
                             timers = [clock s + delay], frames = 0\<rparr>\<rparr>)"
    using shp by (simp add: shape_alt issue_def proxy_def)
  moreover have "leadCall (thr s) \<noteq> None \<longrightarrow>
            step delay afterRAF (Call c) s =
              Inr (s\<lparr>issued := (clock s, c) # issued s,
                     thr := (thr s)\<lparr>edgeCall := Some c\<rparr>\<rparr>)"
    by (simp add: issue_def proxy_def)
  moreover have "edgeCall (thr s) \<noteq> None \<longrightarrow> leadCall (thr s) \<noteq> None"
    using shp by (cases "leadCall (thr s)") (auto simp: shape_alt)
  moreover have "\<forall>s'. (e = Timeout rs \<and> \<not> afterRAF \<or> e = Frame rs) \<and>
               step delay afterRAF e s = Inr s' \<longrightarrow>
               leadCall (thr s') = (if rs = [] then edgeCall (thr s) else Some (last rs)) \<and>
               edgeCall (thr s') = None \<and>
               timers (thr s') = (if leadCall (thr s') = None then [] else [clock s + delay]) \<and>
               frames (thr s') = 0"
  proof (intro allI impI, elim conjE)
    fix s'
    assume e: "e = Timeout rs \<and> \<not> afterRAF \<or> e = Frame rs"
      and st: "step delay afterRAF e s = Inr s'"
    from shp st show "leadCall (thr s') = (if rs = [] then edgeCall (thr s) else Some (last rs)) \<and>
               edgeCall (thr s') = None \<and>
               timers (thr s') = (if leadCall (thr s') = None then [] else [clock s + delay]) \<and>
               frames (thr s') = 0"
      by (cases rule: step_elim; use e in auto)
  qed
  ultimately show ?thesis by blast
qed

text \<open>C4, the theorem at a concrete state: both slots occupied, a third call arrives.\<close>

theorem coalescer_two_slots_witness:
  "run 30 False [Call (1::nat), Call 2] start =
     Inr \<lparr>thr = \<lparr>leadCall = Some 1, edgeCall = Some 2, timers = [30], frames = 0\<rparr>,
          clock = 0, issued = [(0, 2), (0, 1)], fired = []\<rparr> \<and>
   step 30 False (Call 3)
     \<lparr>thr = \<lparr>leadCall = Some (1::nat), edgeCall = Some 2, timers = [30], frames = 0\<rparr>,
      clock = 0, issued = [(0, 2), (0, 1)], fired = []\<rparr> =
     Inr \<lparr>thr = \<lparr>leadCall = Some 1, edgeCall = Some 3, timers = [30], frames = 0\<rparr>,
          clock = 0, issued = [(0, 3), (0, 2), (0, 1)], fired = []\<rparr>"
proof -
  have r: "run 30 False [Call (1::nat), Call 2] start =
     Inr \<lparr>thr = \<lparr>leadCall = Some 1, edgeCall = Some 2, timers = [30], frames = 0\<rparr>,
          clock = 0, issued = [(0, 2), (0, 1)], fired = []\<rparr>"
    by (simp add: run_defs)
  from coalescer_two_slots [OF r, of 3] r show ?thesis
    by simp
qed

text \<open>
  C10.  For every delay (0 included), frame mode and call record, in every reachable
  state: a proxy call succeeds and invokes nothing; an event that invokes the callback
  is a timer (when not frame-deferred) or an animation frame (when frame-deferred), and
  it invokes the callback once, with \<^verbatim>\<open>leadCall\<close>: the re-invocation for a pending
  \<^verbatim>\<open>edgeCall\<close> is left to a later event.
\<close>

theorem coalescer_invokes_only_later:
  assumes "run delay afterRAF es start = Inr s"
  shows "(\<exists>s'. step delay afterRAF (Call c) s = Inr s' \<and> fired s' = fired s) \<and>
         (\<forall>s'. step delay afterRAF e s = Inr s' \<and> fired s' \<noteq> fired s \<longrightarrow>
               ((\<exists>rs. e = Timeout rs) \<and> \<not> afterRAF \<or> (\<exists>rs. e = Frame rs) \<and> afterRAF) \<and>
               (\<exists>l. leadCall (thr s) = Some l \<and> fired s' = (clock s, l) # fired s))"
proof -
  have shp: "shape afterRAF s"
    using assms run_sound sound_start unfolding sound_def by blast
  have "\<exists>s'. step delay afterRAF (Call c) s = Inr s' \<and> fired s' = fired s"
    by (simp add: issue_def)
  moreover have "\<forall>s'. step delay afterRAF e s = Inr s' \<and> fired s' \<noteq> fired s \<longrightarrow>
               ((\<exists>rs. e = Timeout rs) \<and> \<not> afterRAF \<or> (\<exists>rs. e = Frame rs) \<and> afterRAF) \<and>
               (\<exists>l. leadCall (thr s) = Some l \<and> fired s' = (clock s, l) # fired s)"
  proof (intro allI impI, elim conjE)
    fix s'
    assume st: "step delay afterRAF e s = Inr s'" and ch: "fired s' \<noteq> fired s"
    from shp st
    show "((\<exists>rs. e = Timeout rs) \<and> \<not> afterRAF \<or> (\<exists>rs. e = Frame rs) \<and> afterRAF) \<and>
          (\<exists>l. leadCall (thr s) = Some l \<and> fired s' = (clock s, l) # fired s)"
      by (cases rule: step_elim; use shp ch in \<open>auto simp: shape_alt\<close>)
  qed
  ultimately show ?thesis by blast
qed

text \<open>C10, the theorem at delay 0: the call invokes nothing, the timer does.\<close>

theorem coalescer_invokes_only_later_witness:
  "run 0 False [Call (1::nat)] start =
     Inr \<lparr>thr = \<lparr>leadCall = Some 1, edgeCall = None, timers = [0], frames = 0\<rparr>,
          clock = 0, issued = [(0, 1)], fired = []\<rparr> \<and>
   step 0 False (Timeout [])
     \<lparr>thr = \<lparr>leadCall = Some (1::nat), edgeCall = None, timers = [0], frames = 0\<rparr>,
      clock = 0, issued = [(0, 1)], fired = []\<rparr> =
     Inr \<lparr>thr = \<lparr>leadCall = None, edgeCall = None, timers = [], frames = 0\<rparr>,
          clock = 0, issued = [(0, 1)], fired = [(0, 1)]\<rparr> \<and>
   (\<exists>s'. step 0 False (Call 2)
           \<lparr>thr = \<lparr>leadCall = Some (1::nat), edgeCall = None, timers = [0], frames = 0\<rparr>,
            clock = 0, issued = [(0, 1)], fired = []\<rparr> = Inr s' \<and> fired s' = [])"
proof -
  have r: "run 0 False [Call (1::nat)] start =
     Inr \<lparr>thr = \<lparr>leadCall = Some 1, edgeCall = None, timers = [0], frames = 0\<rparr>,
          clock = 0, issued = [(0, 1)], fired = []\<rparr>"
    by (simp add: run_defs)
  have t: "step 0 False (Timeout [])
     \<lparr>thr = \<lparr>leadCall = Some (1::nat), edgeCall = None, timers = [0], frames = 0\<rparr>,
      clock = 0, issued = [(0, 1)], fired = []\<rparr> =
     Inr \<lparr>thr = \<lparr>leadCall = None, edgeCall = None, timers = [], frames = 0\<rparr>,
          clock = 0, issued = [(0, 1)], fired = [(0, 1)]\<rparr>"
    by (simp add: run_defs)
  from coalescer_invokes_only_later [OF r, of 2 "Timeout []"] r t show ?thesis
    by simp
qed

section \<open>Properties of the controller\<close>

lemma updateLoop_pass:
  "updateLoop E os (h, w, tr) =
     (h \<or> pass_reports E os w, pass_world E os w, tr @ pass_trace E os w)"
  by (induction os arbitrary: h w tr)
     (auto simp: Let_def session_report_def session_block_def session_world_def)

lemma updateObservers_pass:
  "updateObservers E s =
     (pass_reports E (observers s) (world s),
      s\<lparr>world := pass_world E (observers s) (world s),
        trace := trace s @ pass_trace E (observers s) (world s)\<rparr>)"
  by (simp add: updateObservers_def updateLoop_pass)

lemma refresh_fields [simp]:
  "isCycleContinuous (refresh a s) = isCycleContinuous s"
  "listenersEnabled (refresh a s) = listenersEnabled s"
  "mutationsObserver (refresh a s) = mutationsObserver s"
  "observers (refresh a s) = observers s"
  "now (refresh a s) = now s"
  "resizeListener (refresh a s) = resizeListener s"
  "world (refresh a s) = world s"
  "trace (refresh a s) = trace s"
  "continuousT (refresh a s) = continuousT s"
  "refreshT (refresh a s) = proxy 30 (now s) a (refreshT s)"
  by (simp_all add: refresh_def)

lemma continuousUpdateHandler_fields [simp]:
  "isCycleContinuous (continuousUpdateHandler a s) = isCycleContinuous s"
  "listenersEnabled (continuousUpdateHandler a s) = listenersEnabled s"
  "mutationsObserver (continuousUpdateHandler a s) = mutationsObserver s"
  "observers (continuousUpdateHandler a s) = observers s"
  "now (continuousUpdateHandler a s) = now s"
  "resizeListener (continuousUpdateHandler a s) = resizeListener s"
  "world (continuousUpdateHandler a s) = world s"
  "trace (continuousUpdateHandler a s) = trace s"
  "refreshT (continuousUpdateHandler a s) = refreshT s"
  "continuousT (continuousUpdateHandler a s) = proxy 70 (now s) a (continuousT s)"
  by (simp_all add: continuousUpdateHandler_def)

lemma refreshBody_fields [simp]:
  "isCycleContinuous (refreshBody E s) = isCycleContinuous s"
  "listenersEnabled (refreshBody E s) = listenersEnabled s"
  "mutationsObserver (refreshBody E s) = mutationsObserver s"
  "observers (refreshBody E s) = observers s"
  "now (refreshBody E s) = now s"
  "resizeListener (refreshBody E s) = resizeListener s"
  "world (refreshBody E s) = pass_world E (observers s) (world s)"
  "trace (refreshBody E s) = trace s @ RefreshPass # pass_trace E (observers s) (world s)"
  "refreshT (refreshBody E s) =
     (if pass_reports E (observers s) (world s) then proxy 30 (now s) NoArgs (refreshT s)
      else refreshT s)"
  "continuousT (refreshBody E s) =
     (if \<not> pass_reports E (observers s) (world s) \<and> isCycleContinuous s \<and> listenersEnabled s
      then proxy 70 (now s) NoArgs (continuousT s)
      else continuousT s)"
  by (simp_all add: refreshBody_def updateObservers_pass)


lemma AnimationFrame_elim [consumes 1, case_names fields]:
  assumes "cstep E AnimationFrame s = Inr s'"
  obtains l where "leadCall (refreshT s) = Some l" "frames (refreshT s) \<noteq> 0"
    "isCycleContinuous s' = isCycleContinuous s"
    "listenersEnabled s' = listenersEnabled s"
    "mutationsObserver s' = mutationsObserver s"
    "observers s' = observers s"
    "now s' = now s"
    "resizeListener s' = resizeListener s"
    "world s' = pass_world E (observers s) (world s)"
    "trace s' = trace s @ RefreshPass # pass_trace E (observers s) (world s)"
    "continuousT s' =
       (if \<not> pass_reports E (observers s) (world s) \<and> isCycleContinuous s \<and> listenersEnabled s
        then proxy 70 (now s) NoArgs (continuousT s)
        else continuousT s)"
    "leadCall (refreshT s') =
       (if pass_reports E (observers s) (world s) then Some NoArgs else edgeCall (refreshT s))"
    "edgeCall (refreshT s') = None"
    "timers (refreshT s') =
       (if leadCall (refreshT s') = None then timers (refreshT s)
        else timers (refreshT s) @ [now s + 30])"
    "frames (refreshT s') = frames (refreshT s) - 1"
proof (cases "leadCall (refreshT s)")
  case None
  with assms show ?thesis
    by (simp add: frameFires_def invokeCallback_def split: if_splits)
next
  case (Some l)
  with assms show ?thesis
    by (intro that [of l])
       (auto simp: frameFires_def invokeCallback_def Let_def proxy_def
             split: if_splits option.splits)
qed

lemma RefreshTimeout_elim [consumes 1, case_names fields]:
  assumes "cstep E RefreshTimeout s = Inr s'"
  obtains due rest where "timers (refreshT s) = due # rest" "due \<le> now s"
    "isCycleContinuous s' = isCycleContinuous s"
    "listenersEnabled s' = listenersEnabled s"
    "mutationsObserver s' = mutationsObserver s"
    "observers s' = observers s"
    "now s' = now s"
    "resizeListener s' = resizeListener s"
    "world s' = world s"
    "trace s' = trace s"
    "continuousT s' = continuousT s"
    "refreshT s' = (refreshT s)\<lparr>timers := rest, frames := frames (refreshT s) + 1\<rparr>"
  using assms
  by (cases "timers (refreshT s)")
     (auto simp: timerFires_def timeoutCallback_def split: if_splits)

lemma ContinuousTimeout_elim [consumes 1, case_names fields]:
  assumes "cstep E ContinuousTimeout s = Inr s'"
  obtains due rest c where "timers (continuousT s) = due # rest" "due \<le> now s"
    "leadCall (continuousT s) = Some c"
    "isCycleContinuous s' = isCycleContinuous s"
    "listenersEnabled s' = listenersEnabled s"
    "mutationsObserver s' = mutationsObserver s"
    "observers s' = observers s"
    "now s' = now s"
    "resizeListener s' = resizeListener s"
    "world s' = world s"
    "trace s' = trace s"
    "refreshT s' = proxy 30 (now s) c (refreshT s)"
    "leadCall (continuousT s') = edgeCall (continuousT s)"
    "edgeCall (continuousT s') = None"
    "timers (continuousT s') =
       (if edgeCall (continuousT s) = None then rest else rest @ [now s + 70])"
    "frames (continuousT s') = frames (continuousT s)"
proof (cases "leadCall (continuousT s)")
  case None
  with assms show ?thesis
    by (cases "timers (continuousT s)")
       (auto simp: timerFires_def timeoutCallback_def invokeCallback_def split: if_splits)
next
  case (Some c)
  with assms show ?thesis
    by (cases "timers (continuousT s)")
       (auto simp: timerFires_def timeoutCallback_def invokeCallback_def Let_def proxy_def
             split: if_splits option.splits intro: that)
qed


lemma pending_ok_proxy:
  "pending_ok raf t \<Longrightarrow> pending_ok raf (proxy d n a t)"
  by (auto simp: pending_ok_def proxy_def)

lemma cinv_constructor: "cinv E (constructor E cu w)"
  by (simp add: cinv_def cpart_def constructor_def pending_ok_def idle_def)

lemma cinv_refresh: "cinv E s \<Longrightarrow> cinv E (refresh a s)"
  by (simp add: cinv_def cpart_def pending_ok_proxy)

lemma cinv_connect: "cinv E s \<Longrightarrow> cinv E (connect E observer s)"
  by (auto simp: cinv_def cpart_def connect_def addListeners_def isConnected_def Let_def pending_ok_proxy)

lemma cinv_disconnect: "cinv E s \<Longrightarrow> cinv E (disconnect E observer s)"
  by (auto simp: cinv_def cpart_def disconnect_def removeListeners_def Let_def)

lemma cinv_set_continuousUpdates: "cinv E s \<Longrightarrow> cinv E (set_continuousUpdates E v s)"
  by (auto simp: cinv_def cpart_def set_continuousUpdates_def Let_def pending_ok_proxy)

lemma cinv_Tick: "cinv E s \<Longrightarrow> cinv E (s\<lparr>now := now s + d\<rparr>)"
  by (simp add: cinv_def cpart_def)

lemma cinv_parts:
  "cinv E s \<longleftrightarrow> cpart E s \<and> pending_ok True (refreshT s) \<and> pending_ok False (continuousT s)"
  by (simp add: cinv_def cpart_def)

lemma cpart_cong:
  "isCycleContinuous s' = isCycleContinuous s \<Longrightarrow>
   listenersEnabled s' = listenersEnabled s \<Longrightarrow>
   mutationsObserver s' = mutationsObserver s \<Longrightarrow>
   observers s' = observers s \<Longrightarrow>
   resizeListener s' = resizeListener s \<Longrightarrow>
   cpart E s' = cpart E s"
  by (simp add: cpart_def)

lemma cinv_RefreshTimeout:
  assumes "cinv E s" and "cstep E RefreshTimeout s = Inr s'"
  shows "cinv E s'"
  using assms(2)
proof (cases rule: RefreshTimeout_elim)
  case (fields due rest)
  have "cpart E s' = cpart E s"
    using fields by (intro cpart_cong) simp_all
  moreover have "pending_ok True (refreshT s')"
    using assms(1) fields(1,12) by (auto simp: cinv_def cpart_def pending_ok_def split: if_splits)
  ultimately show ?thesis
    using assms(1) fields(11) by (simp add: cinv_parts)
qed

lemma cinv_ContinuousTimeout:
  assumes "cinv E s" and "cstep E ContinuousTimeout s = Inr s'"
  shows "cinv E s'"
  using assms(2)
proof (cases rule: ContinuousTimeout_elim)
  case (fields due rest c)
  have "cpart E s' = cpart E s"
    using fields by (intro cpart_cong) simp_all
  moreover have "pending_ok True (refreshT s')"
    using assms(1) fields(12) by (simp add: cinv_parts pending_ok_proxy)
  moreover have ok: "pending_ok False (continuousT s)"
    using assms(1) by (simp add: cinv_parts)
  have "rest = []" "frames (continuousT s) = 0"
    using ok fields(1,3) by (auto simp: pending_ok_def)
  then have "pending_ok False (continuousT s')"
    using fields(3,13-16) by (auto simp: pending_ok_def)
  ultimately show ?thesis
    using assms(1) by (simp add: cinv_parts)
qed

lemma cinv_AnimationFrame:
  assumes "cinv E s" and "cstep E AnimationFrame s = Inr s'"
  shows "cinv E s'"
  using assms(2)
proof (cases rule: AnimationFrame_elim)
  case (fields l)
  have "cpart E s' = cpart E s"
    using fields by (intro cpart_cong) simp_all
  moreover have "pending_ok False (continuousT s')"
    using assms(1) fields(11) by (simp add: cinv_parts pending_ok_proxy)
  moreover have ok: "pending_ok True (refreshT s)"
    using assms(1) by (simp add: cinv_parts)
  have "timers (refreshT s) = []" "frames (refreshT s) = 1"
    using ok fields(1,2) by (cases "timers (refreshT s)"; simp add: pending_ok_def)+
  then have "pending_ok True (refreshT s')"
    using fields(12-15) by (auto simp: pending_ok_def)
  ultimately show ?thesis
    using assms(1) by (simp add: cinv_parts)
qed

lemma cstep_cinv:
  assumes "cinv E s" and "cstep E e s = Inr s'"
  shows "cinv E s'"
  using assms
  by (cases e)
     (auto simp: cinv_connect cinv_disconnect cinv_set_continuousUpdates cinv_refresh cinv_Tick
           split: if_splits
           intro: cinv_RefreshTimeout cinv_ContinuousTimeout cinv_AnimationFrame)

lemma crun_cinv:
  "cinv E s \<Longrightarrow> crun E es s = Inr s' \<Longrightarrow> cinv E s'"
proof (induction es arbitrary: s)
  case Nil
  then show ?case by simp
next
  case (Cons e es)
  then show ?case
    by (cases "cstep E e s") (auto dest: cstep_cinv)
qed

lemma reachable_cinv:
  "crun E es (constructor E cu w) = Inr s \<Longrightarrow> cinv E s"
  by (rule crun_cinv [OF cinv_constructor])

lemma connect_connected:
  assumes "cinv E s" and "isConnected observer s"
  shows "connect E observer s = s"
proof -
  have "observers s \<noteq> []"
    using assms(2) by (auto simp: isConnected_def)
  then have "listenersEnabled s \<or> \<not> isBrowser E"
    using assms(1) by (simp add: cinv_def cpart_def)
  then show ?thesis
    using assms(2) by (auto simp: connect_def addListeners_def)
qed

lemma disconnect_absent:
  assumes "cinv E s" and "\<not> isConnected observer s"
  shows "disconnect E observer s = s"
proof -
  have "observers s = [] \<longrightarrow> \<not> listenersEnabled s"
    using assms(1) by (simp add: cinv_def cpart_def)
  then show ?thesis
    using assms(2) by (auto simp: disconnect_def isConnected_def)
qed

text \<open>
  C6.  In every reachable state of the controller the list of sessions has no
  duplicates; connecting a session that is already connected leaves the controller as
  it is, and so does disconnecting a session that is not connected.
\<close>

theorem connect_disconnect_idempotent:
  assumes "crun E es (constructor E cu w) = Inr s"
  shows "distinct (observers s) \<and>
         (isConnected observer s \<longrightarrow> connect E observer s = s) \<and>
         (\<not> isConnected observer s \<longrightarrow> disconnect E observer s = s)"
proof -
  have inv: "cinv E s" using reachable_cinv [OF assms] .
  then have "distinct (observers s)" by (simp add: cinv_def cpart_def)
  with connect_connected [OF inv] disconnect_absent [OF inv] show ?thesis by blast
qed

text \<open>
  C6, the theorem at a concrete state: sessions 1 and 2 connected, 1 is connected
  again and 3 is disconnected.
\<close>

theorem connect_disconnect_idempotent_witness:
  "crun (demo_env True True) [Connect 1, Connect 2] (constructor (demo_env True True) False 0) =
     Inr \<lparr>isCycleContinuous = False, listenersEnabled = True, mutationsObserver = Watcher,
          observers = [1, 2], refreshT = idle, continuousT = idle, now = 0,
          resizeListener = True, world = 0,
          trace = [AddResizeListener, ObserveMutations]\<rparr> \<and>
   connect (demo_env True True) 1
     \<lparr>isCycleContinuous = False, listenersEnabled = True, mutationsObserver = Watcher,
      observers = [1, 2], refreshT = idle, continuousT = idle, now = 0,
      resizeListener = True, world = 0,
      trace = [AddResizeListener, ObserveMutations]\<rparr> =
     \<lparr>isCycleContinuous = False, listenersEnabled = True, mutationsObserver = Watcher,
      observers = [1, 2], refreshT = idle, continuousT = idle, now = 0,
      resizeListener = True, world = 0,
      trace = [AddResizeListener, ObserveMutations]\<rparr> \<and>
   disconnect (demo_env True True) 3
     \<lparr>isCycleContinuous = False, listenersEnabled = True, mutationsObserver = Watcher,
      observers = [1, 2], refreshT = idle, continuousT = idle, now = 0,
      resizeListener = True, world = 0,
      trace = [AddResizeListener, ObserveMutations]\<rparr> =
     \<lparr>isCycleContinuous = False, listenersEnabled = True, mutationsObserver = Watcher,
      observers = [1, 2], refreshT = idle, continuousT = idle, now = 0,
      resizeListener = True, world = 0,
      trace = [AddResizeListener, ObserveMutations]\<rparr>"
proof -
  have r: "crun (demo_env True True) [Connect 1, Connect 2]
             (constructor (demo_env True True) False 0) =
     Inr \<lparr>isCycleContinuous = False, listenersEnabled = True, mutationsObserver = Watcher,
          observers = [1, 2], refreshT = idle, continuousT = idle, now = 0,
          resizeListener = True, world = 0,
          trace = [AddResizeListener, ObserveMutations]\<rparr>"
    by code_simp
  from connect_disconnect_idempotent [OF r, of 1] connect_disconnect_idempotent [OF r, of 3] r
  show ?thesis
    by (simp add: isConnected_def)
qed

text \<open>
  C7.  When the environment has no \<^verbatim>\<open>MutationObserver\<close>: continuous updates are on
  after construction whatever the constructor's argument, they are on in every
  reachable state, and assigning any value \<open>v\<close> to \<^verbatim>\<open>continuousUpdates\<close> changes
  nothing: the controller is the same and the getter reads true.
\<close>

theorem continuous_mode_forced:
  assumes "\<not> mutationsSupported E"
  shows "continuousUpdates (constructor E cu w) \<and>
         (crun E es (constructor E cu w) = Inr s \<longrightarrow>
            continuousUpdates s \<and> set_continuousUpdates E v s = s \<and>
            continuousUpdates (set_continuousUpdates E v s))"
proof -
  have "continuousUpdates (constructor E cu w)"
    using assms by (simp add: continuousUpdates_def constructor_def)
  moreover have "set_continuousUpdates E v s = s"
    using assms by (simp add: set_continuousUpdates_def)
  moreover have "crun E es (constructor E cu w) = Inr s \<Longrightarrow> continuousUpdates s"
    using assms reachable_cinv [of E es cu w s]
    by (simp add: cinv_def cpart_def continuousUpdates_def)
  ultimately show ?thesis by simp
qed

text \<open>
  C7, the theorem in an environment without mutation detection: constructed with
  \<^verbatim>\<open>false\<close>, then set to \<^verbatim>\<open>false\<close>.
\<close>

theorem continuous_mode_forced_witness:
  "\<not> mutationsSupported (demo_env True False) \<and>
   continuousUpdates (constructor (demo_env True False) False 0) \<and>
   continuousUpdates
     (set_continuousUpdates (demo_env True False) False (constructor (demo_env True False) False 0))"
proof -
  have m: "\<not> mutationsSupported (demo_env True False)"
    by (simp add: demo_env_def)
  have r: "crun (demo_env True False) [] (constructor (demo_env True False) False 0) =
             Inr (constructor (demo_env True False) False 0)"
    by simp
  from continuous_mode_forced [OF m, of False 0 "[]" "constructor (demo_env True False) False 0" False]
    m r
  show ?thesis by simp
qed

lemma listener_effects_simps [simp]:
  "listener_effects [] = []"
  "listener_effects (xs @ ys) = listener_effects xs @ listener_effects ys"
  "listener_effects (AddResizeListener # xs) = AddResizeListener # listener_effects xs"
  "listener_effects (RemoveResizeListener # xs) = RemoveResizeListener # listener_effects xs"
  "listener_effects (ObserveMutations # xs) = ObserveMutations # listener_effects xs"
  "listener_effects (DisconnectMutations # xs) = DisconnectMutations # listener_effects xs"
  "listener_effects (RefreshPass # xs) = listener_effects xs"
  "listener_effects (GatherActive observer # xs) = listener_effects xs"
  "listener_effects (HasActive observer b # xs) = listener_effects xs"
  "listener_effects (BroadcastActive observer # xs) = listener_effects xs"
  by (simp_all add: listener_effects_def)

lemma listener_effects_pass [simp]: "listener_effects (pass_trace E os w) = []"
  by (induction os arbitrary: w) (simp_all add: session_block_def)




lemma set_continuousUpdates_trace [simp]:
  "trace (set_continuousUpdates E v s) = trace s"
  by (simp add: set_continuousUpdates_def Let_def)





lemma addListeners_observers [simp]: "observers (addListeners E s) = observers s"
  by (simp add: addListeners_def Let_def)

lemma removeListeners_observers [simp]: "observers (removeListeners E s) = observers s"
  by (simp add: removeListeners_def Let_def)

lemma set_continuousUpdates_observers [simp]:
  "observers (set_continuousUpdates E v s) = observers s"
  by (simp add: set_continuousUpdates_def Let_def)

lemma cstep_observers:
  assumes "cstep E e s = Inr s'"
  shows "observers s' =
     (case e of
        Connect observer \<Rightarrow>
          if observer \<in> set (observers s) then observers s else observers s @ [observer]
      | Disconnect observer \<Rightarrow> remove1 observer (observers s)
      | _ \<Rightarrow> observers s)"
proof (cases e)
  case RefreshTimeout
  with assms have "cstep E RefreshTimeout s = Inr s'" by (simp only:)
  then show ?thesis by (cases rule: RefreshTimeout_elim) (simp add: RefreshTimeout)
next
  case ContinuousTimeout
  with assms have "cstep E ContinuousTimeout s = Inr s'" by (simp only:)
  then show ?thesis by (cases rule: ContinuousTimeout_elim) (simp add: ContinuousTimeout)
next
  case AnimationFrame
  with assms have "cstep E AnimationFrame s = Inr s'" by (simp only:)
  then show ?thesis by (cases rule: AnimationFrame_elim) (simp add: AnimationFrame)
qed (use assms in \<open>auto simp: connect_def disconnect_def isConnected_def Let_def remove1_idem
                        split: if_splits\<close>)

lemma crun_connection_order:
  "cinv E s0 \<Longrightarrow> crun E es s0 = Inr s \<Longrightarrow> observers s = connection_order es (observers s0)"
proof (induction es arbitrary: s0)
  case Nil
  then show ?case by simp
next
  case (Cons e es)
  from Cons.prems(2) obtain s1 where s1: "cstep E e s0 = Inr s1" "crun E es s1 = Inr s"
    by (cases "cstep E e s0") auto
  have "cinv E s1" using Cons.prems(1) s1(1) by (rule cstep_cinv)
  from Cons.IH [OF this s1(2)] have "observers s = connection_order es (observers s1)" .
  moreover have "distinct (observers s0)"
    using Cons.prems(1) by (simp add: cinv_def cpart_def)
  ultimately show ?case
    using cstep_observers [OF s1(1)]
    by (cases e) (simp_all add: distinct_remove1_removeAll)
qed

lemma gathered_append [simp]: "gathered (xs @ ys) = gathered xs @ gathered ys"
  by (induction xs rule: gathered.induct) simp_all

lemma gathered_pass: "gathered (pass_trace E os w) = os"
  by (induction os arbitrary: w) (simp_all add: session_block_def)

lemma reports_pass:
  "pass_reports E os w \<longleftrightarrow> (\<exists>observer. HasActive observer True \<in> set (pass_trace E os w))"
  by (induction os arbitrary: w) (auto simp: session_block_def)

text \<open>
  When no subscriber calls the controller, the loop over the live array is the loop
  over the list as it was at the start of the pass, and so is the pass as the
  specification words it (\<open>updateLoop_pass\<close>).
\<close>

lemma updateLive_quiet:
  assumes "length (observers s) \<le> i + n"
  shows "updateLive E (\<lambda>observer w. []) n i h s =
           Some (case updateLoop E (drop i (observers s)) (h, world s, trace s) of
                   (h', w, tr) \<Rightarrow> (h', s\<lparr>world := w, trace := tr\<rparr>))"
  using assms
proof (induction n arbitrary: i h s)
  case 0
  then show ?case by simp
next
  case (Suc n)
  show ?case
  proof (cases "i < length (observers s)")
    case False
    then show ?thesis by simp
  next
    case True
    then have d: "drop i (observers s) = observers s ! i # drop (Suc i) (observers s)"
      by (simp add: Cons_nth_drop_Suc)
    have ih: "updateLive E (\<lambda>observer w. []) n (Suc i) h' s' =
           Some (case updateLoop E (drop (Suc i) (observers s)) (h', world s', trace s') of
                   (h'', w, tr) \<Rightarrow> (h'', s'\<lparr>world := w, trace := tr\<rparr>))"
      if "observers s' = observers s" for h' s'
      using Suc.IH [of s' "Suc i" h'] Suc.prems that by simp
    show ?thesis
      using True
      by (simp add: d Let_def ih split: prod.splits)
  qed
qed

text \<open>
  C9 on the code.  Every connected session is to be processed in each pass, and the
  comment on \<^verbatim>\<open>_updateObservers()\<close> says it updates every observer of the list.
  The code does not: with sessions 1, 2 and 3 connected, each with a change, and the
  subscriber of session 1 disconnecting session 1 from its callback, the splice moves
  session 2 to the index the iterator has just left, and the pass gathers 1 and 3 but
  never 2, which is connected before and after the pass.
\<close>

theorem live_pass_skips_session:
  "updateLive (demo_env True True)
     (\<lambda>observer w. if observer = 1 then [CallDisconnect 1] else []) 3 0 False
     \<lparr>isCycleContinuous = False, listenersEnabled = True, mutationsObserver = Watcher,
      observers = [1, 2, 3], refreshT = idle, continuousT = idle, now = 0,
      resizeListener = True, world = 3,
      trace = [AddResizeListener, ObserveMutations]\<rparr> =
   Some (True,
     \<lparr>isCycleContinuous = False, listenersEnabled = True, mutationsObserver = Watcher,
      observers = [2, 3], refreshT = idle, continuousT = idle, now = 0,
      resizeListener = True, world = 1,
      trace = [AddResizeListener, ObserveMutations,
               GatherActive 1, HasActive 1 True, BroadcastActive 1,
               GatherActive 3, HasActive 3 True, BroadcastActive 3]\<rparr>)"
  by code_simp




lemma passes_pass_trace [simp]:
  "length (filter (\<lambda>x. x = RefreshPass) (pass_trace E os w)) = 0"
  by (induction os arbitrary: w) (simp_all add: session_block_def)













text \<open>
  With no session connected every task of the scheduler is enabled, uses up some of
  \<open>ctodo\<close>, and adds no call to the slots; only an animation frame makes a pass, and
  the pass takes one call out of them.
\<close>

lemma ctodo_le: "ctodo s \<le> 16"
  by (simp add: ctodo_def split: list.splits)

lemma idle_cinv:
  assumes "cinv E s" and "cnextTask s = None"
  shows "calm s \<and> cpend s = 0"
proof -
  have t: "frames (refreshT s) = 0" "timers (refreshT s) = []" "timers (continuousT s) = []"
    using assms(2) by (auto simp: cnextTask_def split: if_splits list.splits)
  have "pending_ok True (refreshT s)" "pending_ok False (continuousT s)"
    using assms(1) by (simp_all add: cinv_def)
  with t show ?thesis
    by (auto simp: pending_ok_def calm_def cpend_def split: if_splits)
qed

lemma drain_Tick:
  assumes "cnextTask s = Some (Tick d)"
  shows "ctodo (s\<lparr>now := now s + d\<rparr>) < ctodo s"
  using assms
  by (auto simp: cnextTask_def timerTask_def ctodo_def split: if_splits list.splits)


lemma drain_Frame:
  assumes "cinv E s" and "observers s = []" and "frames (refreshT s) \<noteq> 0"
  shows "\<exists>s1. cstep E AnimationFrame s = Inr s1 \<and> ctodo s1 < ctodo s \<and>
              observers s1 = [] \<and> Suc (cpend s1) = cpend s \<and>
              trace s1 = trace s @ [RefreshPass]"
proof -
  have ok: "pending_ok True (refreshT s)" and off: "\<not> listenersEnabled s"
    using assms(1,2) by (simp_all add: cinv_def cpart_def)
  from ok assms(3) obtain l where l: "leadCall (refreshT s) = Some l"
    by (cases "leadCall (refreshT s)") (auto simp: pending_ok_def)
  with ok assms(3) have t: "timers (refreshT s) = []" "frames (refreshT s) = 1"
    by (cases "timers (refreshT s)"; simp add: pending_ok_def)+
  have "\<exists>s1. cstep E AnimationFrame s = Inr s1"
    using l assms(3) by (simp add: frameFires_def invokeCallback_def Let_def split: option.splits)
  then obtain s1 where s1: "cstep E AnimationFrame s = Inr s1" by blast
  from s1 have "ctodo s1 < ctodo s \<and> observers s1 = [] \<and> Suc (cpend s1) = cpend s \<and>
              trace s1 = trace s @ [RefreshPass]"
  proof (cases rule: AnimationFrame_elim)
    case (fields l')
    have c: "continuousT s1 = continuousT s"
      using fields(11) off by simp
    have r: "leadCall (refreshT s1) = edgeCall (refreshT s)"
      using fields(12) assms(2) by simp
    have tm: "timers (refreshT s1) = (if edgeCall (refreshT s) = None then [] else [now s + 30])"
      using fields(14) r t by simp
    have "ctodo s1 < ctodo s"
      using c r tm fields(7,13,15) t by (simp add: ctodo_def split: list.splits)
    moreover have "Suc (cpend s1) = cpend s"
      using c r fields(13) l by (simp add: cpend_def)
    ultimately show ?thesis
      using fields(6,10) assms(2) by simp
  qed
  with s1 show ?thesis by blast
qed

lemma drain_RefreshTimeout:
  assumes "cinv E s" and "frames (refreshT s) = 0" and "timers (refreshT s) = r # rest"
    and "r \<le> now s"
  shows "\<exists>s1. cstep E RefreshTimeout s = Inr s1 \<and> ctodo s1 < ctodo s \<and>
              observers s1 = observers s \<and> cpend s1 = cpend s \<and> trace s1 = trace s"
proof -
  have "\<exists>s1. cstep E RefreshTimeout s = Inr s1"
    using assms(3,4) by (simp add: timerFires_def timeoutCallback_def)
  then obtain s1 where s1: "cstep E RefreshTimeout s = Inr s1" by blast
  from s1 have "ctodo s1 < ctodo s \<and> observers s1 = observers s \<and> cpend s1 = cpend s \<and>
                trace s1 = trace s"
  proof (cases rule: RefreshTimeout_elim)
    case (fields due rest')
    then show ?thesis
      using assms(2,3,4) by (simp add: ctodo_def cpend_def split: list.splits)
  qed
  with s1 show ?thesis by blast
qed

lemma drain_ContinuousTimeout:
  assumes "cinv E s" and "timers (continuousT s) = c # rest" and "c \<le> now s"
  shows "\<exists>s1. cstep E ContinuousTimeout s = Inr s1 \<and> ctodo s1 < ctodo s \<and>
              observers s1 = observers s \<and> cpend s1 \<le> cpend s \<and> 0 < cpend s1 \<and>
              trace s1 = trace s"
proof -
  have okf: "pending_ok True (refreshT s)" and oks: "pending_ok False (continuousT s)"
    using assms(1) by (simp_all add: cinv_def)
  from oks assms(2) obtain l where l: "leadCall (continuousT s) = Some l"
    by (cases "leadCall (continuousT s)") (auto simp: pending_ok_def)
  with oks assms(2) have rest: "rest = []"
    by (simp add: pending_ok_def)
  have "\<exists>s1. cstep E ContinuousTimeout s = Inr s1"
    using l assms(2,3)
    by (simp add: timerFires_def timeoutCallback_def invokeCallback_def Let_def
             split: option.splits)
  then obtain s1 where s1: "cstep E ContinuousTimeout s = Inr s1" by blast
  from s1 have "ctodo s1 < ctodo s \<and> observers s1 = observers s \<and> cpend s1 \<le> cpend s \<and>
                0 < cpend s1 \<and> trace s1 = trace s"
  proof (cases rule: ContinuousTimeout_elim)
    case (fields due rest' c')
    have f: "refreshT s1 = proxy 30 (now s) l (refreshT s)"
      using fields(3,12) l by simp
    have fast: "timers (refreshT s) = [] \<and> frames (refreshT s) = 0 \<and> edgeCall (refreshT s) = None"
      if "leadCall (refreshT s) = None"
      using okf that by (simp add: pending_ok_def)
    have "ctodo s1 < ctodo s"
      using f fast fields(1,8,13-16) assms(2,3) rest
      by (cases "leadCall (refreshT s)") (auto simp: ctodo_def proxy_def split: list.splits)
    moreover have "cpend s1 \<le> cpend s \<and> 0 < cpend s1"
      using f fast fields(13,14) l
      by (cases "leadCall (refreshT s)") (auto simp: cpend_def proxy_def)
    ultimately show ?thesis
      using fields(7,11) by simp
  qed
  with s1 show ?thesis by blast
qed


lemma cnextTask_cases:
  assumes "cnextTask s = Some e"
  shows "frames (refreshT s) \<noteq> 0 \<and> e = AnimationFrame \<or>
         frames (refreshT s) = 0 \<and>
           ((\<exists>d. e = Tick d) \<or>
            e = RefreshTimeout \<and> (\<exists>r rest. timers (refreshT s) = r # rest \<and> r \<le> now s) \<or>
            e = ContinuousTimeout \<and>
              (\<exists>c rest. timers (continuousT s) = c # rest \<and> c \<le> now s))"
  using assms
  by (auto simp: cnextTask_def timerTask_def split: if_splits list.splits)

lemma drain_step:
  assumes "cinv E s" and "observers s = []" and "cnextTask s = Some e"
  shows "\<exists>s1. cstep E e s = Inr s1 \<and> ctodo s1 < ctodo s \<and> observers s1 = [] \<and>
              cpend s1 + (if e = AnimationFrame then 1 else 0) \<le> cpend s \<and>
              (0 < cpend s \<longrightarrow> e = AnimationFrame \<or> 0 < cpend s1) \<and>
              trace s1 = trace s @ (if e = AnimationFrame then [RefreshPass] else [])"
  using cnextTask_cases [OF assms(3)]
proof (elim disjE conjE exE)
  assume "frames (refreshT s) \<noteq> 0" "e = AnimationFrame"
  with drain_Frame [OF assms(1,2)] show ?thesis by auto
next
  fix d assume e: "e = Tick d"
  from assms(3) have "ctodo (s\<lparr>now := now s + d\<rparr>) < ctodo s"
    unfolding e by (rule drain_Tick)
  moreover have "cpend (s\<lparr>now := now s + d\<rparr>) = cpend s" by (simp add: cpend_def)
  ultimately show ?thesis using e assms(2) by simp
next
  fix r rest
  assume "frames (refreshT s) = 0" "e = RefreshTimeout" "timers (refreshT s) = r # rest"
    "r \<le> now s"
  with drain_RefreshTimeout [OF assms(1), of r rest] assms(2) show ?thesis by auto
next
  fix c rest
  assume "e = ContinuousTimeout" "timers (continuousT s) = c # rest" "c \<le> now s"
  with drain_ContinuousTimeout [OF assms(1), of c rest] assms(2) show ?thesis by auto
qed

lemma drain_all:
  assumes "cinv E s" and "observers s = []" and "ctodo s \<le> n"
  shows "\<exists>s' p. crun E (cwind_down E n s) s = Inr s' \<and> calm s' \<and> cpend s' = 0 \<and>
           observers s' = [] \<and> trace s' = trace s @ replicate p RefreshPass \<and>
           p \<le> cpend s \<and> (0 < cpend s \<longrightarrow> 0 < p)"
  using assms
proof (induction n arbitrary: s)
  case 0
  then have "cnextTask s = None"
    by (auto simp: ctodo_def cnextTask_def split: if_splits list.splits)
  with idle_cinv [OF "0.prems"(1)] "0.prems"(2) show ?case
    by (intro exI [of _ s] exI [of _ 0]) simp
next
  case (Suc n)
  show ?case
  proof (cases "cnextTask s")
    case None
    with idle_cinv [OF Suc.prems(1)] Suc.prems(2) show ?thesis
      by (intro exI [of _ s] exI [of _ 0]) simp
  next
    case (Some e)
    from drain_step [OF Suc.prems(1,2) Some] obtain s1 where
      s1: "cstep E e s = Inr s1" "ctodo s1 < ctodo s" "observers s1 = []"
        "cpend s1 + (if e = AnimationFrame then 1 else 0) \<le> cpend s"
        "0 < cpend s \<longrightarrow> e = AnimationFrame \<or> 0 < cpend s1"
        "trace s1 = trace s @ (if e = AnimationFrame then [RefreshPass] else [])"
      by (elim exE conjE) (rule that; assumption)
    have inv1: "cinv E s1" using Suc.prems(1) s1(1) by (rule cstep_cinv)
    have "ctodo s1 \<le> n" using s1(2) Suc.prems(3) by simp
    from Suc.IH [OF inv1 s1(3) this] obtain s' p where
      r: "crun E (cwind_down E n s1) s1 = Inr s'" "calm s'" "cpend s' = 0" "observers s' = []"
        "trace s' = trace s1 @ replicate p RefreshPass" "p \<le> cpend s1"
        "0 < cpend s1 \<longrightarrow> 0 < p"
      by (elim exE conjE) (rule that; assumption)
    have run: "crun E (cwind_down E (Suc n) s) s = Inr s'"
      using Some s1(1) r(1) by simp
    show ?thesis
    proof (cases "e = AnimationFrame")
      case True
      have "trace s' = trace s @ replicate (Suc p) RefreshPass"
        using r(5) s1(6) True by simp
      moreover have "Suc p \<le> cpend s" using r(6) s1(4) True by simp
      ultimately show ?thesis
        using run r(2,3,4) by (intro exI [of _ s'] exI [of _ "Suc p"]) simp
    next
      case False
      have "trace s' = trace s @ replicate p RefreshPass"
        using r(5) s1(6) False by simp
      moreover have "p \<le> cpend s" using r(6) s1(4) False by simp
      moreover have "0 < cpend s \<longrightarrow> 0 < p" using r(7) s1(5) False by simp
      ultimately show ?thesis
        using run r(2,3,4) by (intro exI [of _ s'] exI [of _ p]) simp
    qed
  qed
qed

text \<open>
  C8.  In every reachable state with no session connected: the listeners are off, so
  neither a resize nor a mutation notification can be delivered; the refresh method
  calls no session and schedules nothing (it only records that it ran); and whatever
  is still scheduled, in either coalescer and in either slot, the scheduler left alone
  reaches within 16 steps a state where nothing is scheduled and all slots are empty,
  having made only empty passes: at most one for each call that was waiting, and at
  least one if any was.  A single scheduled refresh thus fires exactly once.
\<close>

theorem disconnected_refresh_is_empty:
  assumes "crun E es (constructor E cu w) = Inr s" and "observers s = []"
  shows "\<not> listenersEnabled s \<and>
         cstep E Resize s = Inl NotEnabled \<and> cstep E Mutation s = Inl NotEnabled \<and>
         refreshBody E s = s\<lparr>trace := trace s @ [RefreshPass]\<rparr> \<and>
         (\<exists>s' p. crun E (cwind_down E 16 s) s = Inr s' \<and> calm s' \<and> cpend s' = 0 \<and>
                 observers s' = [] \<and> trace s' = trace s @ replicate p RefreshPass \<and>
                 p \<le> cpend s \<and> (0 < cpend s \<longrightarrow> 0 < p))"
proof -
  have inv: "cinv E s"
    using assms(1) by (rule crun_cinv [OF cinv_constructor])
  have off: "\<not> listenersEnabled s" "\<not> resizeListener s" "mutationsObserver s \<noteq> Watcher"
    using inv assms(2) by (simp_all add: cinv_def cpart_def)
  have body: "refreshBody E s = s\<lparr>trace := trace s @ [RefreshPass]\<rparr>"
    using off(1) assms(2) by (simp add: refreshBody_def updateObservers_def)
  note drain_all [OF inv assms(2) ctodo_le]
  with off body show ?thesis by simp
qed

text \<open>
  C8, the theorem at a concrete history in continuous mode: the 70 ms coalescer holds
  a call, a resize and a mutation fill both slots of the refresh coalescer, then the
  only session disconnects; three empty passes follow.
\<close>

theorem disconnected_refresh_is_empty_witness:
  "crun (demo_env True True)
     [Connect 1, Tick 30, RefreshTimeout, AnimationFrame, Resize, Mutation, Disconnect 1]
     (constructor (demo_env True True) True 0) = Inr
     \<lparr>isCycleContinuous = True, listenersEnabled = False, mutationsObserver = Null,
      observers = [],
      refreshT = \<lparr>leadCall = Some ResizeEvent, edgeCall = Some MutationRecords,
                  timers = [60], frames = 0\<rparr>,
      continuousT = \<lparr>leadCall = Some NoArgs, edgeCall = None, timers = [100], frames = 0\<rparr>,
      now = 30, resizeListener = False, world = 0::nat,
      trace = [AddResizeListener, ObserveMutations, RefreshPass, GatherActive 1,
               HasActive 1 False, RemoveResizeListener, DisconnectMutations]\<rparr> \<and>
   cpend
     \<lparr>isCycleContinuous = True, listenersEnabled = False, mutationsObserver = Null,
      observers = [],
      refreshT = \<lparr>leadCall = Some ResizeEvent, edgeCall = Some MutationRecords,
                  timers = [60], frames = 0\<rparr>,
      continuousT = \<lparr>leadCall = Some NoArgs, edgeCall = None, timers = [100], frames = 0\<rparr>,
      now = 30, resizeListener = False, world = 0::nat,
      trace = [AddResizeListener, ObserveMutations, RefreshPass, GatherActive 1,
               HasActive 1 False, RemoveResizeListener, DisconnectMutations]\<rparr> = 3 \<and>
   cwind_down (demo_env True True) 16
     \<lparr>isCycleContinuous = True, listenersEnabled = False, mutationsObserver = Null,
      observers = [],
      refreshT = \<lparr>leadCall = Some ResizeEvent, edgeCall = Some MutationRecords,
                  timers = [60], frames = 0\<rparr>,
      continuousT = \<lparr>leadCall = Some NoArgs, edgeCall = None, timers = [100], frames = 0\<rparr>,
      now = 30, resizeListener = False, world = 0::nat,
      trace = [AddResizeListener, ObserveMutations, RefreshPass, GatherActive 1,
               HasActive 1 False, RemoveResizeListener, DisconnectMutations]\<rparr> =
     [Tick 30, RefreshTimeout, AnimationFrame, Tick 30, RefreshTimeout, AnimationFrame,
      Tick 10, ContinuousTimeout, Tick 30, RefreshTimeout, AnimationFrame] \<and>
   crun (demo_env True True)
     [Tick 30, RefreshTimeout, AnimationFrame, Tick 30, RefreshTimeout, AnimationFrame,
      Tick 10, ContinuousTimeout, Tick 30, RefreshTimeout, AnimationFrame]
     \<lparr>isCycleContinuous = True, listenersEnabled = False, mutationsObserver = Null,
      observers = [],
      refreshT = \<lparr>leadCall = Some ResizeEvent, edgeCall = Some MutationRecords,
                  timers = [60], frames = 0\<rparr>,
      continuousT = \<lparr>leadCall = Some NoArgs, edgeCall = None, timers = [100], frames = 0\<rparr>,
      now = 30, resizeListener = False, world = 0::nat,
      trace = [AddResizeListener, ObserveMutations, RefreshPass, GatherActive 1,
               HasActive 1 False, RemoveResizeListener, DisconnectMutations]\<rparr> = Inr
     \<lparr>isCycleContinuous = True, listenersEnabled = False, mutationsObserver = Null,
      observers = [], refreshT = idle, continuousT = idle,
      now = 130, resizeListener = False, world = 0::nat,
      trace = [AddResizeListener, ObserveMutations, RefreshPass, GatherActive 1,
               HasActive 1 False, RemoveResizeListener, DisconnectMutations,
               RefreshPass, RefreshPass, RefreshPass]\<rparr> \<and>
   calm
     \<lparr>isCycleContinuous = True, listenersEnabled = False, mutationsObserver = Null,
      observers = [], refreshT = idle, continuousT = idle,
      now = 130, resizeListener = False, world = 0::nat,
      trace = [AddResizeListener, ObserveMutations, RefreshPass, GatherActive 1,
               HasActive 1 False, RemoveResizeListener, DisconnectMutations,
               RefreshPass, RefreshPass, RefreshPass]\<rparr> \<and>
   (\<exists>p. trace
     \<lparr>isCycleContinuous = True, listenersEnabled = False, mutationsObserver = Null,
      observers = [], refreshT = idle, continuousT = idle,
      now = 130, resizeListener = False, world = 0::nat,
      trace = [AddResizeListener, ObserveMutations, RefreshPass, GatherActive 1,
               HasActive 1 False, RemoveResizeListener, DisconnectMutations,
               RefreshPass, RefreshPass, RefreshPass]\<rparr> = trace
     \<lparr>isCycleContinuous = True, listenersEnabled = False, mutationsObserver = Null,
      observers = [],
      refreshT = \<lparr>leadCall = Some ResizeEvent, edgeCall = Some MutationRecords,
                  timers = [60], frames = 0\<rparr>,
      continuousT = \<lparr>leadCall = Some NoArgs, edgeCall = None, timers = [100], frames = 0\<rparr>,
      now = 30, resizeListener = False, world = 0::nat,
      trace = [AddResizeListener, ObserveMutations, RefreshPass, GatherActive 1,
               HasActive 1 False, RemoveResizeListener, DisconnectMutations]\<rparr> @ replicate p RefreshPass \<and> 0 < p \<and> p \<le> 3)"
proof -
  let ?E = "(demo_env True True)"
  let ?s = "
     \<lparr>isCycleContinuous = True, listenersEnabled = False, mutationsObserver = Null,
      observers = [],
      refreshT = \<lparr>leadCall = Some ResizeEvent, edgeCall = Some MutationRecords,
                  timers = [60], frames = 0\<rparr>,
      continuousT = \<lparr>leadCall = Some NoArgs, edgeCall = None, timers = [100], frames = 0\<rparr>,
      now = 30, resizeListener = False, world = 0::nat,
      trace = [AddResizeListener, ObserveMutations, RefreshPass, GatherActive 1,
               HasActive 1 False, RemoveResizeListener, DisconnectMutations]\<rparr>"
  let ?s2 = "
     \<lparr>isCycleContinuous = True, listenersEnabled = False, mutationsObserver = Null,
      observers = [], refreshT = idle, continuousT = idle,
      now = 130, resizeListener = False, world = 0::nat,
      trace = [AddResizeListener, ObserveMutations, RefreshPass, GatherActive 1,
               HasActive 1 False, RemoveResizeListener, DisconnectMutations,
               RefreshPass, RefreshPass, RefreshPass]\<rparr>"
  have r: "crun ?E
             [Connect 1, Tick 30, RefreshTimeout, AnimationFrame, Resize, Mutation, Disconnect 1]
             (constructor ?E True 0) = Inr ?s"
    by code_simp
  have w: "cwind_down ?E 16 ?s =
     [Tick 30, RefreshTimeout, AnimationFrame, Tick 30, RefreshTimeout, AnimationFrame,
      Tick 10, ContinuousTimeout, Tick 30, RefreshTimeout, AnimationFrame]"
    by code_simp
  have f: "crun ?E
     [Tick 30, RefreshTimeout, AnimationFrame, Tick 30, RefreshTimeout, AnimationFrame,
      Tick 10, ContinuousTimeout, Tick 30, RefreshTimeout, AnimationFrame] ?s = Inr ?s2"
    by code_simp
  have o: "observers ?s = []" by simp
  have c: "cpend ?s = 3" by (simp add: cpend_def)
  from disconnected_refresh_is_empty [OF r o] obtain s' p where
    s': "crun ?E (cwind_down ?E 16 ?s) ?s = Inr s'" "calm s'"
      "trace s' = trace ?s @ replicate p RefreshPass" "p \<le> cpend ?s"
      "0 < cpend ?s \<longrightarrow> 0 < p"
    by (elim exE conjE) (rule that; assumption)
  have "s' = ?s2" using s'(1) f unfolding w by simp
  with s'(2,3,4,5) c have "calm ?s2"
    "\<exists>p. trace ?s2 = trace ?s @ replicate p RefreshPass \<and> 0 < p \<and> p \<le> 3"
    by auto
  with r c w f show ?thesis by (intro conjI)
qed

end
